theory Spec2Isabelle
  imports Main "HOL-Library.List_Lexorder"
begin

section \<open>Python strings\<close>

text \<open>
  A Python \<open>str\<close> is a sequence of Unicode code points, and \<open>len\<close> counts code points.
  The diagram codec measures indentation with \<open>len\<close> on lines that hold box-drawing
  characters, so a string is modelled as the list of its code points. Strings are
  compared as Python compares them: lexicographically by code point (the order of
  \<open>HOL-Library.List_Lexorder\<close>).
\<close>

type_synonym pystr = "nat list"

definition u :: "string \<Rightarrow> pystr" where
  "u s = map of_char s"

definition SLASH :: nat where "SLASH = 47"
definition SPACE :: nat where "SPACE = 32"
definition NL :: nat where "NL = 10"
definition CR :: nat where "CR = 13"
definition BANG :: nat where "BANG = 33"
definition BACKTICK :: nat where "BACKTICK = 96"

text \<open>The box-drawing characters U+2502, U+251C, U+2514 and U+2500.\<close>

definition BOX_V :: nat where "BOX_V = 9474"
definition BOX_VR :: nat where "BOX_VR = 9500"
definition BOX_UR :: nat where "BOX_UR = 9492"
definition BOX_H :: nat where "BOX_H = 9472"

text \<open>The characters \<open>str.strip\<close> removes (\<open>str.isspace\<close>).\<close>

definition isspace :: "nat \<Rightarrow> bool" where
  "isspace c \<longleftrightarrow> (9 \<le> c \<and> c \<le> 13) \<or> (28 \<le> c \<and> c \<le> 32) \<or> c = 133 \<or> c = 160
     \<or> c = 5760 \<or> (8192 \<le> c \<and> c \<le> 8202) \<or> c = 8232 \<or> c = 8233 \<or> c = 8239
     \<or> c = 8287 \<or> c = 12288"

text \<open>The line boundaries of \<open>str.splitlines\<close>.\<close>

definition islinebreak :: "nat \<Rightarrow> bool" where
  "islinebreak c \<longleftrightarrow> (10 \<le> c \<and> c \<le> 13) \<or> (28 \<le> c \<and> c \<le> 30) \<or> c = 133
     \<or> c = 8232 \<or> c = 8233"

definition lstrip :: "pystr \<Rightarrow> pystr" where
  "lstrip s = dropWhile isspace s"

definition rstrip :: "pystr \<Rightarrow> pystr" where
  "rstrip s = rev (dropWhile isspace (rev s))"

definition strip :: "pystr \<Rightarrow> pystr" where
  "strip s = rstrip (lstrip s)"

definition startswith :: "pystr \<Rightarrow> pystr \<Rightarrow> bool" where
  "startswith s p \<longleftrightarrow> take (length p) s = p"

definition endswith :: "pystr \<Rightarrow> pystr \<Rightarrow> bool" where
  "endswith s p \<longleftrightarrow> length p \<le> length s \<and> drop (length s - length p) s = p"

text \<open>
  \<open>s.splitlines()\<close>: the lines of \<open>s\<close> without their line breaks; \<open>\r\n\<close> is one
  break, and a break at the very end opens no further line.
\<close>

fun splitlines_from :: "pystr \<Rightarrow> pystr \<Rightarrow> pystr list" where
  "splitlines_from cur [] = (if cur = [] then [] else [cur])"
| "splitlines_from cur [c] =
     (if islinebreak c then [cur] else splitlines_from (cur @ [c]) [])"
| "splitlines_from cur (c # d # s) =
     (if c = CR \<and> d = NL then cur # splitlines_from [] s
      else if islinebreak c then cur # splitlines_from [] (d # s)
      else splitlines_from (cur @ [c]) (d # s))"

definition splitlines :: "pystr \<Rightarrow> pystr list" where
  "splitlines s = splitlines_from [] s"

text \<open>
  \<open>s.replace(old, '')\<close> for a non-empty \<open>old\<close> (every call of the source passes a
  non-empty literal and the empty replacement): the occurrences are found from the
  left and do not overlap.
\<close>

function remove_all :: "pystr \<Rightarrow> pystr \<Rightarrow> pystr" where
  "remove_all old [] = []"
| "remove_all old (c # s) =
     (if old \<noteq> [] \<and> take (length old) (c # s) = old
      then remove_all old (drop (length old) (c # s))
      else c # remove_all old s)"
  by pat_completeness auto
termination
  by (relation "measure (\<lambda>(old, s). length s)") auto

text \<open>\<open>sep.join(parts)\<close>.\<close>

fun join :: "pystr \<Rightarrow> pystr list \<Rightarrow> pystr" where
  "join sep [] = []"
| "join sep [x] = x"
| "join sep (x # y # xs) = x @ sep @ join sep (y # xs)"

text \<open>\<open>s.split(sep)\<close> for a one-character separator.\<close>

fun split_from :: "nat \<Rightarrow> pystr \<Rightarrow> pystr \<Rightarrow> pystr list" where
  "split_from sep cur [] = [cur]"
| "split_from sep cur (c # s) =
     (if c = sep then cur # split_from sep [] s else split_from sep (cur @ [c]) s)"

definition split :: "pystr \<Rightarrow> nat \<Rightarrow> pystr list" where
  "split s sep = split_from sep [] s"

section \<open>Errors\<close>

text \<open>
  The exceptions the source raises or lets escape. \<open>ValueError\<close> carries its message.
  \<open>Dangling\<close> is not a Python exception: it marks a reference that points outside
  the tree under construction, which no loop of the source can hold. \<open>Crash\<close> is not
  one either: where the compiled module calls a method or reads a field of a variable
  declared \<open>TreeNode\<close> that holds \<open>None\<close>, it does so without a check, and the process
  dies; nothing is returned and nothing is raised.
\<close>

datatype error =
    ValueError pystr
  | AttributeError
  | IndexError
  | StopIteration
  | TypeError
  | PermissionError
  | NotADirectoryError
  | FileNotFoundError
  | OverflowError
  | Dangling
  | Crash

section \<open>C integers\<close>

text \<open>
  A parameter declared \<open>int\<close>, or a component of one declared \<open>tuple[int, int]\<close>, is
  a C \<open>int\<close> of 32 bits. The conversion of the Python integer of the caller happens on
  entry, before the body runs, and raises \<open>OverflowError\<close> for a value out of range.
\<close>

definition c_int :: "int \<Rightarrow> bool" where
  "c_int x \<longleftrightarrow> - (2 ^ 31) \<le> x \<and> x < 2 ^ 31"

section \<open>TreeNode\<close>

text \<open>
  The four fields of the class. \<open>non_leaf_names\<close> is only assigned when the node is
  not a leaf; on a leaf the attribute keeps its initial \<open>None\<close>.
\<close>

datatype TreeNode =
  TreeNode (name: pystr) (is_leaf: bool) (children: "TreeNode list")
    (non_leaf_names: "pystr set option")

definition TreeNode_init :: "pystr \<Rightarrow> bool \<Rightarrow> TreeNode" where
  "TreeNode_init nm leaf = TreeNode nm leaf [] (if \<not> leaf then Some {} else None)"

text \<open>
  \<open>add_child\<close> appends, then adds the name of a non-leaf child to the set; on a
  receiver whose set is \<open>None\<close> the second step raises.
\<close>

definition add_child :: "TreeNode \<Rightarrow> TreeNode \<Rightarrow> error + TreeNode" where
  "add_child self node =
     (let cs = children self @ [node] in
      if \<not> is_leaf node then
        (case non_leaf_names self of
           None \<Rightarrow> Inl AttributeError
         | Some s \<Rightarrow> Inr (TreeNode (name self) (is_leaf self) cs (Some (insert (name node) s))))
      else Inr (TreeNode (name self) (is_leaf self) cs (non_leaf_names self)))"

section \<open>References into the tree under construction\<close>

text \<open>
  The decoders and the builders keep Python references to nodes that already hang in
  the tree they build, and \<open>add_child\<close> mutates the node a reference points to. The
  model keeps the root as the store and a reference as the list of child indices that
  leads from the root to the node. Children are only ever appended, so a reference
  stays valid once it is taken.
\<close>

type_synonym ref = "nat list"

fun node_at :: "TreeNode \<Rightarrow> ref \<Rightarrow> TreeNode option" where
  "node_at t [] = Some t"
| "node_at t (i # p) =
     (if i < length (children t) then node_at (children t ! i) p else None)"

fun add_child_at :: "TreeNode \<Rightarrow> ref \<Rightarrow> TreeNode \<Rightarrow> error + TreeNode" where
  "add_child_at t [] node = add_child t node"
| "add_child_at t (i # p) node =
     (if i < length (children t) then
        (case add_child_at (children t ! i) p node of
           Inl e \<Rightarrow> Inl e
         | Inr c \<Rightarrow> Inr (TreeNode (name t) (is_leaf t) ((children t)[i := c]) (non_leaf_names t)))
      else Inl Dangling)"

text \<open>
  \<open>parent.add_child(node)\<close> through the reference \<open>p\<close>: the new root, and the
  reference to \<open>node\<close> in it.
\<close>

definition attach :: "TreeNode \<Rightarrow> ref \<Rightarrow> TreeNode \<Rightarrow> error + (TreeNode \<times> ref)" where
  "attach root p node =
     (case node_at root p of
        None \<Rightarrow> Inl Dangling
      | Some parent \<Rightarrow>
          (case add_child_at root p node of
             Inl e \<Rightarrow> Inl e
           | Inr root' \<Rightarrow> Inr (root', p @ [length (children parent)])))"

section \<open>Stacks\<close>

text \<open>
  A \<open>deque\<close> used as a stack: the head of the list is the top. \<open>push_each xs st\<close>
  appends the elements of \<open>xs\<close> one after the other, so the last of \<open>xs\<close> ends on top.
  \<open>pop_to n st\<close> is the loop \<open>while len(st) > n: st.pop()\<close>.
\<close>

definition push_each :: "'a list \<Rightarrow> 'a list \<Rightarrow> 'a list" where
  "push_each xs st = foldl (\<lambda>acc x. x # acc) st xs"

function pop_to :: "nat \<Rightarrow> 'a list \<Rightarrow> 'a list" where
  "pop_to n st = (if length st > n then pop_to n (tl st) else st)"
  by pat_completeness auto
termination
  by (relation "measure (\<lambda>(n, st). length st)") auto

declare pop_to.simps [simp del]

lemma push_each_rev: "push_each xs st = rev xs @ st"
  unfolding push_each_def by (induction xs arbitrary: st) simp_all

lemma sum_size_children: "sum_list (map size (children n)) < size n"
proof (cases n)
  case (TreeNode nm lf cs s)
  have "sum_list (map size cs) \<le> size_list size cs"
    by (induction cs) simp_all
  then show ?thesis using TreeNode by simp
qed

lemma size_TreeNode_pos: "0 < size (n :: TreeNode)"
  by (cases n) simp

lemma sum_size_filter: "sum_list (map size (filter P xs)) \<le> sum_list (map size xs)"
  by (induction xs) simp_all

section \<open>The listing codec\<close>

definition indent_of :: "int \<Rightarrow> pystr" where
  "indent_of level = replicate (4 * nat level) SPACE"

function to_repr_loop ::
  "int \<Rightarrow> int \<Rightarrow> (TreeNode \<times> int) list \<Rightarrow> pystr \<Rightarrow> pystr" where
  "to_repr_loop folder_depth file_depth [] representation = representation"
| "to_repr_loop folder_depth file_depth ((current_node, current_level) # stack) representation =
     (if is_leaf current_node \<and> file_depth \<noteq> 0 \<and> current_level > file_depth then
        to_repr_loop folder_depth file_depth stack representation
      else if \<not> is_leaf current_node \<and> folder_depth \<noteq> 0 \<and> current_level > folder_depth then
        to_repr_loop folder_depth file_depth stack representation
      else
        (let r1 = (if current_level > 0
                   then representation @ [NL] @ indent_of current_level @ u ''|-- ''
                          @ name current_node
                   else representation @ name current_node)
         in if \<not> is_leaf current_node then
              to_repr_loop folder_depth file_depth
                (push_each (map (\<lambda>child. (child, current_level + 1))
                   (rev (children current_node))) stack)
                (r1 @ [SLASH])
            else to_repr_loop folder_depth file_depth stack r1))"
  by pat_completeness auto
termination
proof (relation "measure (\<lambda>(fd, ld, st, r). sum_list (map (\<lambda>e. size (fst e)) st))",
    goal_cases)
  case (4 fd ld n lvl st r)
  have "sum_list (map (\<lambda>e. size (fst e)) (map (\<lambda>child. (child, lvl + 1)) (children n)))
        = sum_list (map size (children n))"
    by (simp add: comp_def)
  then show ?case
    using sum_size_children [of n] by (simp add: push_each_rev rev_map comp_def)
qed (simp_all add: size_TreeNode_pos)

text \<open>\<open>level\<close> and the two components of \<open>depth\<close> are C integers.\<close>

definition to_repr :: "TreeNode \<Rightarrow> int \<Rightarrow> int \<times> int \<Rightarrow> error + pystr" where
  "to_repr self level depth =
     (case depth of (folder_depth, file_depth) \<Rightarrow>
        if \<not> (c_int level \<and> c_int folder_depth \<and> c_int file_depth) then Inl OverflowError
        else if folder_depth < 0 \<or> file_depth < 0
        then Inl (ValueError (u ''Depth values cannot be negative''))
        else Inr (to_repr_loop folder_depth file_depth [(self, level)] []))"

text \<open>One pass of the body of \<open>for line in lines[1:]\<close> in \<open>from_repr\<close>.\<close>

definition from_repr_line ::
  "TreeNode \<times> ref list \<Rightarrow> pystr \<Rightarrow> error + (TreeNode \<times> ref list)" where
  "from_repr_line state line =
     (case state of (root_node, node_stack) \<Rightarrow>
        let indent_level = length line - length (lstrip line);
            level = indent_level div 4;
            line_content = strip line;
            leaf = \<not> endswith line_content [SLASH];
            nm = (if leaf then strip (remove_all (u ''|-- '') line_content)
                  else strip (remove_all (u ''|-- '') (remove_all [SLASH] line_content)));
            new_node = TreeNode_init nm leaf;
            node_stack1 = pop_to (level + 1) node_stack
        in case node_stack1 of
             [] \<Rightarrow> Inl IndexError
           | parent_node # below \<Rightarrow>
               (case attach root_node parent_node new_node of
                  Inl e \<Rightarrow> Inl e
                | Inr (root1, new_ref) \<Rightarrow>
                    Inr (root1, if \<not> leaf then new_ref # node_stack1 else node_stack1)))"

fun from_repr_lines ::
  "TreeNode \<times> ref list \<Rightarrow> pystr list \<Rightarrow> error + (TreeNode \<times> ref list)" where
  "from_repr_lines state [] = Inr state"
| "from_repr_lines state (line # rest) =
     (case from_repr_line state line of
        Inl e \<Rightarrow> Inl e
      | Inr state1 \<Rightarrow> from_repr_lines state1 rest)"

definition from_repr :: "pystr \<Rightarrow> error + TreeNode option" where
  "from_repr repr_str =
     (case splitlines (strip repr_str) of
        [] \<Rightarrow> Inr None
      | first # rest \<Rightarrow>
          (let root_name = remove_all [SLASH] (strip first);
               root_node = TreeNode_init root_name False
           in case from_repr_lines (root_node, [[]]) rest of
                Inl e \<Rightarrow> Inl e
              | Inr (root1, node_stack) \<Rightarrow> Inr (Some root1)))"

section \<open>The diagram codec\<close>

text \<open>The connectors and continuation prefixes of the diagram.\<close>

definition LAST_CONNECTOR :: pystr where
  "LAST_CONNECTOR = [BOX_UR, BOX_H, BOX_H, SPACE]"

definition MID_CONNECTOR :: pystr where
  "MID_CONNECTOR = [BOX_VR, BOX_H, BOX_H, SPACE]"

definition BLANK_CONT :: pystr where
  "BLANK_CONT = [SPACE, SPACE, SPACE, SPACE]"

definition BAR_CONT :: pystr where
  "BAR_CONT = [BOX_V, SPACE, SPACE, SPACE]"

text \<open>The test that puts a child on \<open>validate_stack\<close>.\<close>

definition md_valid :: "int \<Rightarrow> int \<Rightarrow> int \<Rightarrow> TreeNode \<Rightarrow> bool" where
  "md_valid folder_depth file_depth current_level child \<longleftrightarrow>
     (if is_leaf child then file_depth = 0 \<or> current_level + 1 \<le> file_depth
      else folder_depth = 0 \<or> current_level + 1 \<le> folder_depth)"

text \<open>
  What one iteration pushes: the last (valid) child with \<open>is_last = True\<close> first, then
  the others from the last but one down to the first.
\<close>

definition md_push ::
  "TreeNode list \<Rightarrow> int \<Rightarrow> pystr \<Rightarrow> (TreeNode \<times> int \<times> bool \<times> pystr) list
     \<Rightarrow> (TreeNode \<times> int \<times> bool \<times> pystr) list" where
  "md_push cs current_level new_prefix stack =
     (if cs \<noteq> [] then
        push_each (map (\<lambda>child. (child, current_level + 1, False, new_prefix)) (rev (butlast cs)))
          ((last cs, current_level + 1, True, new_prefix) # stack)
      else stack)"

definition md_next_stack ::
  "pystr \<Rightarrow> int \<Rightarrow> int \<Rightarrow> TreeNode \<Rightarrow> int \<Rightarrow> bool \<Rightarrow> pystr
     \<Rightarrow> (TreeNode \<times> int \<times> bool \<times> pystr) list \<Rightarrow> (TreeNode \<times> int \<times> bool \<times> pystr) list" where
  "md_next_stack prefix folder_depth file_depth current_node current_level current_is_last
       current_prefix stack =
     (if \<not> is_leaf current_node then
        (let new_prefix =
               (if current_level > 0
                then current_prefix @ (if current_is_last then BLANK_CONT else BAR_CONT)
                else prefix)
         in if folder_depth = 0 \<and> file_depth = 0 then
              md_push (children current_node) current_level new_prefix stack
            else
              md_push (filter (md_valid folder_depth file_depth current_level)
                         (children current_node)) current_level new_prefix stack)
      else stack)"

lemma md_next_stack_size:
  "sum_list (map (\<lambda>e. size (fst e)) (md_next_stack prefix fd ld n lvl il cp st))
     < size n + sum_list (map (\<lambda>e. size (fst e)) st)"
proof -
  have push: "sum_list (map (\<lambda>e. size (fst e)) (md_push cs lvl np st))
      = sum_list (map size cs) + sum_list (map (\<lambda>e. size (fst e)) st)" for cs np
  proof (cases "cs = []")
    case False
    then have "cs = butlast cs @ [last cs]" by simp
    then have "sum_list (map size cs) = sum_list (map size (butlast cs)) + size (last cs)"
      by (metis (no_types) list.simps(8,9) map_append sum_list.Cons sum_list.Nil
          sum_list.append add.right_neutral)
    then show ?thesis
      using False by (simp add: md_push_def push_each_rev rev_map comp_def)
  qed (simp add: md_push_def)
  show ?thesis
    using sum_size_children [of n] size_TreeNode_pos [of n]
      sum_size_filter [of "md_valid fd ld lvl" "children n"]
    by (simp add: md_next_stack_def push Let_def)
qed

function to_md_loop ::
  "pystr \<Rightarrow> int \<Rightarrow> int \<Rightarrow> (TreeNode \<times> int \<times> bool \<times> pystr) list \<Rightarrow> pystr \<Rightarrow> pystr" where
  "to_md_loop prefix folder_depth file_depth [] md_representation = md_representation"
| "to_md_loop prefix folder_depth file_depth
       ((current_node, current_level, current_is_last, current_prefix) # stack)
       md_representation =
     (let indent = current_prefix @
            (if current_level > 0
             then (if current_is_last then LAST_CONNECTOR else MID_CONNECTOR) else []);
          md1 = md_representation @
            (if \<not> is_leaf current_node then indent @ name current_node @ [SLASH]
             else indent @ name current_node);
          stack1 = md_next_stack prefix folder_depth file_depth current_node current_level
                     current_is_last current_prefix stack
      in to_md_loop prefix folder_depth file_depth stack1
           (if stack1 \<noteq> [] then md1 @ [NL] else md1))"
  by pat_completeness auto
termination
  by (relation "measure (\<lambda>(p, fd, ld, st, r). sum_list (map (\<lambda>e. size (fst e)) st))")
    (simp_all add: md_next_stack_size)

definition to_md ::
  "TreeNode \<Rightarrow> int \<Rightarrow> bool \<Rightarrow> pystr \<Rightarrow> int \<times> int \<Rightarrow> error + pystr" where
  "to_md self level is_last prefix depth =
     (case depth of (folder_depth, file_depth) \<Rightarrow>
        if \<not> (c_int level \<and> c_int folder_depth \<and> c_int file_depth) then Inl OverflowError
        else if folder_depth < 0 \<or> file_depth < 0
        then Inl (ValueError (u ''Depth values must be non-negative''))
        else Inr (to_md_loop prefix folder_depth file_depth
                    [(self, level, is_last, prefix)] []))"

text \<open>One pass of the body of \<open>for line in lines[1:]\<close> in \<open>from_md\<close>.\<close>

definition from_md_line ::
  "TreeNode \<times> ref list \<Rightarrow> pystr \<Rightarrow> error + (TreeNode \<times> ref list)" where
  "from_md_line state line =
     (case state of (root_node, node_stack) \<Rightarrow>
        let indent_level = length line - length (lstrip (remove_all [BOX_V] line));
            level = indent_level div 4;
            line_content = strip line;
            leaf = \<not> endswith line_content [SLASH];
            nm = strip (remove_all [SLASH] (remove_all MID_CONNECTOR
                   (remove_all LAST_CONNECTOR (remove_all [BOX_V] line_content))));
            new_node = TreeNode_init nm leaf;
            node_stack1 = pop_to (level + 1) node_stack
        in case node_stack1 of
             [] \<Rightarrow> Inl IndexError
           | parent_node # below \<Rightarrow>
               (case attach root_node parent_node new_node of
                  Inl e \<Rightarrow> Inl e
                | Inr (root1, new_ref) \<Rightarrow>
                    Inr (root1, if \<not> leaf then new_ref # node_stack1 else node_stack1)))"

fun from_md_lines ::
  "TreeNode \<times> ref list \<Rightarrow> pystr list \<Rightarrow> error + (TreeNode \<times> ref list)" where
  "from_md_lines state [] = Inr state"
| "from_md_lines state (line # rest) =
     (case from_md_line state line of
        Inl e \<Rightarrow> Inl e
      | Inr state1 \<Rightarrow> from_md_lines state1 rest)"

definition from_md :: "pystr \<Rightarrow> error + TreeNode option" where
  "from_md md_str =
     (case splitlines (strip md_str) of
        [] \<Rightarrow> Inr None
      | first # rest \<Rightarrow>
          (let root_name = remove_all [SLASH] (strip first);
               root_node = TreeNode_init root_name False
           in case from_md_lines (root_node, [[]]) rest of
                Inl e \<Rightarrow> Inl e
              | Inr (root1, node_stack) \<Rightarrow> Inr (Some root1)))"

section \<open>The mapping codec\<close>

text \<open>
  The values the mapping codec writes and reads: \<open>None\<close>, or a \<open>dict\<close> from names to
  such values. A \<open>dict\<close> keeps its keys in insertion order; assigning to a key that is
  present replaces the value where it stands.
\<close>

datatype pyval = PNone | PDict "(pystr \<times> pyval) list"

type_synonym pydict = "(pystr \<times> pyval) list"

fun dict_set :: "pydict \<Rightarrow> pystr \<Rightarrow> pyval \<Rightarrow> pydict" where
  "dict_set [] k v = [(k, v)]"
| "dict_set ((k', v') # d) k v =
     (if k' = k then (k, v) # d else (k', v') # dict_set d k v)"

text \<open>
  \<open>to_dict\<close> keeps references to the dictionaries nested in its result. Such a
  reference is modelled as the list of keys that leads to the dictionary from the
  result; \<open>dict_set_at d p k v\<close> is the assignment \<open>parent_dict[k] = v\<close> through it.
\<close>

fun dict_set_at :: "pydict \<Rightarrow> pystr list \<Rightarrow> pystr \<Rightarrow> pyval \<Rightarrow> error + pydict" where
  "dict_set_at d [] k v = Inr (dict_set d k v)"
| "dict_set_at d (k0 # p) k v =
     (case map_of d k0 of
        Some (PDict inner) \<Rightarrow>
          (case dict_set_at inner p k v of
             Inl e \<Rightarrow> Inl e
           | Inr inner' \<Rightarrow> Inr (dict_set d k0 (PDict inner')))
      | _ \<Rightarrow> Inl Dangling)"

function to_dict_loop ::
  "(TreeNode \<times> pystr list option) list \<Rightarrow> pydict \<Rightarrow> error + pydict" where
  "to_dict_loop [] result_dict = Inr result_dict"
| "to_dict_loop ((current_node, parent_dict) # stack) result_dict =
     (let v = (if \<not> is_leaf current_node then PDict [] else PNone);
          stack1 = (if \<not> is_leaf current_node then
                      push_each
                        (map (\<lambda>child. (child,
                           Some ((case parent_dict of None \<Rightarrow> [] | Some p \<Rightarrow> p)
                                   @ [name current_node])))
                           (rev (children current_node))) stack
                    else stack)
      in case parent_dict of
           None \<Rightarrow> to_dict_loop stack1 [(name current_node, v)]
         | Some p \<Rightarrow>
             (case dict_set_at result_dict p (name current_node) v of
                Inl e \<Rightarrow> Inl e
              | Inr result1 \<Rightarrow> to_dict_loop stack1 result1))"
  by pat_completeness auto
termination
proof (relation "measure (\<lambda>(st, r). sum_list (map (\<lambda>e. size (fst e)) st))", goal_cases)
  case (2 n pd st r v st1)
  then show ?case
    using sum_size_children [of n] size_TreeNode_pos [of n]
    by (simp add: push_each_rev rev_map comp_def)
next
  case (3 n pd st r v st1 p r1)
  then show ?case
    using sum_size_children [of n] size_TreeNode_pos [of n]
    by (simp add: push_each_rev rev_map comp_def)
qed simp

definition to_dict :: "TreeNode \<Rightarrow> error + pydict" where
  "to_dict self = to_dict_loop [(self, None)] []"

fun vsize :: "pyval \<Rightarrow> nat" where
  "vsize PNone = 1"
| "vsize (PDict items) = 1 + sum_list (map (\<lambda>kv. vsize (snd kv)) items)"

definition dsize :: "pydict \<Rightarrow> nat" where
  "dsize d = sum_list (map (\<lambda>kv. vsize (snd kv)) d)"

text \<open>
  The items of a directory's value. \<open>from_dict\<close> asks for them only when the value is
  not \<open>None\<close>.
\<close>

definition items_of :: "pyval \<Rightarrow> pydict" where
  "items_of v = (case v of PDict its \<Rightarrow> its | PNone \<Rightarrow> [])"

function from_dict_loop ::
  "(ref option \<times> pydict) list \<Rightarrow> TreeNode option \<Rightarrow> error + TreeNode option" where
  "from_dict_loop [] root_node = Inr root_node"
| "from_dict_loop ((parent_node, []) # stack) root_node = Inl StopIteration"
| "from_dict_loop ((parent_node, (nm, v) # more) # stack) root_node =
     (let leaf = (v = PNone);
          current_node = TreeNode_init nm leaf
      in case (case parent_node of
                 None \<Rightarrow> Inr (current_node, [])
               | Some p \<Rightarrow>
                   (case root_node of
                      None \<Rightarrow> Inl Dangling
                    | Some r \<Rightarrow> attach r p current_node)) of
           Inl e \<Rightarrow> Inl e
         | Inr (root1, current_ref) \<Rightarrow>
             from_dict_loop
               (if \<not> leaf then
                  push_each (map (\<lambda>(child_name, child_dict).
                               (Some current_ref, [(child_name, child_dict)]))
                             (rev (items_of v))) stack
                else stack)
               (Some root1))"
  by pat_completeness auto
termination
proof (relation "measure (\<lambda>(st, r). sum_list (map (\<lambda>e. dsize (snd e)) st))", goal_cases)
  case (2 pn nm v more st r leaf cur x root1 cref)
  have "sum_list (map (\<lambda>e. dsize (snd e))
          (map (\<lambda>(child_name, child_dict). (Some cref, [(child_name, child_dict)])) its))
        = dsize its" for its
    by (induction its) (auto simp: dsize_def)
  moreover have "dsize (items_of v) < vsize v"
    by (cases v) (simp_all add: items_of_def dsize_def)
  ultimately show ?case
    by (simp add: push_each_rev rev_map [symmetric] dsize_def)
qed simp

definition from_dict :: "pydict \<Rightarrow> error + TreeNode option" where
  "from_dict node_dict = from_dict_loop [(None, node_dict)] None"

section \<open>Pattern matcher\<close>

text \<open>
  \<open>fnmatch.fnmatch\<close> and \<open>os.path.isdir\<close> belong to the Python library and to the
  file system; they are parameters \<open>fm\<close> (path first, then pattern) and \<open>isdir\<close>.
\<close>

fun should_ignore_loop :: "(pystr \<Rightarrow> pystr \<Rightarrow> bool) \<Rightarrow> pystr \<Rightarrow> pystr list \<Rightarrow> bool" where
  "should_ignore_loop fm path [] = False"
| "should_ignore_loop fm path (pattern # rest) =
     (if startswith pattern [BANG] then
        (if fm path (drop 1 pattern) then False else should_ignore_loop fm path rest)
      else
        (if fm path pattern then True else should_ignore_loop fm path rest))"

definition should_ignore ::
  "(pystr \<Rightarrow> pystr \<Rightarrow> bool) \<Rightarrow> (pystr \<Rightarrow> bool) \<Rightarrow> pystr \<Rightarrow> pystr list option \<Rightarrow> bool" where
  "should_ignore fm isdir path ignore_patterns =
     (let pats = (case ignore_patterns of None \<Rightarrow> [] | Some ps \<Rightarrow> ps);
          path' = (if isdir path \<and> \<not> endswith path [SLASH] then path @ [SLASH] else path)
      in should_ignore_loop fm path' (rev pats))"

text \<open>
  The path a pattern is matched against, and the glob a pattern stands for once its
  negation mark is taken off.
\<close>

definition match_path :: "(pystr \<Rightarrow> bool) \<Rightarrow> pystr \<Rightarrow> pystr" where
  "match_path isdir path =
     (if isdir path \<and> \<not> endswith path [SLASH] then path @ [SLASH] else path)"

definition is_negation :: "pystr \<Rightarrow> bool" where
  "is_negation pattern \<longleftrightarrow> startswith pattern [BANG]"

definition pattern_glob :: "pystr \<Rightarrow> pystr" where
  "pattern_glob pattern = (if is_negation pattern then drop 1 pattern else pattern)"

text \<open>
  The wildcard core of \<open>fnmatch\<close>: \<open>*\<close> matches any run of characters, \<open>?\<close> any
  one character, every other character itself (character classes are left out). It
  instantiates the parameter \<open>fm\<close> at concrete inputs.
\<close>

fun glob :: "pystr \<Rightarrow> pystr \<Rightarrow> bool" where
  "glob [] [] = True"
| "glob (c # s) [] = False"
| "glob [] (p # ps) = (p = 42 \<and> glob [] ps)"
| "glob (c # s) (p # ps) =
     (if p = 42 then glob (c # s) ps \<or> glob s (p # ps)
      else if p = 63 then glob s ps
      else c = p \<and> glob s ps)"

section \<open>Paths and the file system\<close>

text \<open>\<open>os.path.join(a, b)\<close> and \<open>os.path.basename\<close>, as \<open>posixpath\<close> defines them.\<close>

definition path_join :: "pystr \<Rightarrow> pystr \<Rightarrow> pystr" where
  "path_join a b =
     (if startswith b [SLASH] then b
      else if a = [] \<or> endswith a [SLASH] then a @ b
      else a @ [SLASH] @ b)"

definition basename :: "pystr \<Rightarrow> pystr" where
  "basename p = rev (takeWhile (\<lambda>c. c \<noteq> SLASH) (rev p))"

text \<open>\<open>os.path.normpath\<close>, as \<open>posixpath\<close> defines it.\<close>

fun normpath_comps :: "nat \<Rightarrow> pystr list \<Rightarrow> pystr list \<Rightarrow> pystr list" where
  "normpath_comps initial_slashes [] new_comps = new_comps"
| "normpath_comps initial_slashes (part # parts) new_comps =
     (if part = [] \<or> part = u ''.'' then normpath_comps initial_slashes parts new_comps
      else if part \<noteq> u ''..'' \<or> (initial_slashes = 0 \<and> new_comps = [])
              \<or> (new_comps \<noteq> [] \<and> last new_comps = u ''..'')
      then normpath_comps initial_slashes parts (new_comps @ [part])
      else if new_comps \<noteq> [] then normpath_comps initial_slashes parts (butlast new_comps)
      else normpath_comps initial_slashes parts new_comps)"

definition normpath :: "pystr \<Rightarrow> pystr" where
  "normpath path =
     (if path = [] then u ''.''
      else
        let initial_slashes =
              (if startswith path [SLASH] then
                 (if startswith path [SLASH, SLASH] \<and> \<not> startswith path [SLASH, SLASH, SLASH]
                  then 2 else 1)
               else 0);
            new_comps = normpath_comps initial_slashes (split path SLASH) [];
            path1 = replicate initial_slashes SLASH @ join [SLASH] new_comps
        in if path1 = [] then u ''.'' else path1)"

text \<open>
  What the source asks of the operating system and of \<open>fnmatch\<close>: the listing of a
  directory (or the exception \<open>os.listdir\<close> raises), whether a path is a directory,
  whether it exists, a path relative to another one, and the glob test.
\<close>

record os_env =
  os_listdir :: "pystr \<Rightarrow> error + pystr list"
  os_isdir :: "pystr \<Rightarrow> bool"
  os_exists :: "pystr \<Rightarrow> bool"
  os_relpath :: "pystr \<Rightarrow> pystr \<Rightarrow> pystr"
  fnmatch :: "pystr \<Rightarrow> pystr \<Rightarrow> bool"

section \<open>The builders\<close>

text \<open>The \<open>for item in os.listdir(current_path)\<close> loop of \<open>_build_tree\<close>.\<close>

fun build_items ::
  "os_env \<Rightarrow> pystr list option \<Rightarrow> pystr \<Rightarrow> pystr \<Rightarrow> ref \<Rightarrow> pystr list
     \<Rightarrow> TreeNode \<times> (ref \<times> pystr) list \<Rightarrow> error + (TreeNode \<times> (ref \<times> pystr) list)" where
  "build_items os ignore_patterns root_path current_path current_node [] state = Inr state"
| "build_items os ignore_patterns root_path current_path current_node (item # items) state =
     (case state of (root_node, stack) \<Rightarrow>
        let item_path = path_join current_path item;
            relative_path = os_relpath os item_path root_path
        in if should_ignore (fnmatch os) (os_isdir os) relative_path ignore_patterns then
             build_items os ignore_patterns root_path current_path current_node items state
           else if os_isdir os item_path then
             (case attach root_node current_node (TreeNode_init item False) of
                Inl e \<Rightarrow> Inl e
              | Inr (root1, child_node) \<Rightarrow>
                  build_items os ignore_patterns root_path current_path current_node items
                    (root1, (child_node, item_path) # stack))
           else
             (case attach root_node current_node (TreeNode_init item True) of
                Inl e \<Rightarrow> Inl e
              | Inr (root1, leaf_node) \<Rightarrow>
                  build_items os ignore_patterns root_path current_path current_node items
                    (root1, stack)))"

text \<open>
  The \<open>while stack\<close> loop of \<open>_build_tree\<close>. A file system with a cycle keeps the
  walk going for ever, so the loop takes fuel: \<open>None\<close> says the walk did not end
  within it. \<open>PermissionError\<close> is caught (the diagnostic print is left out), any other
  exception of \<open>os.listdir\<close> escapes.
\<close>

fun build_tree_loop ::
  "nat \<Rightarrow> os_env \<Rightarrow> pystr list option \<Rightarrow> pystr \<Rightarrow> (ref \<times> pystr) list \<Rightarrow> TreeNode
     \<Rightarrow> (error + TreeNode) option" where
  "build_tree_loop 0 os ignore_patterns root_path stack root_node = None"
| "build_tree_loop (Suc fuel) os ignore_patterns root_path [] root_node = Some (Inr root_node)"
| "build_tree_loop (Suc fuel) os ignore_patterns root_path ((current_node, current_path) # stack)
       root_node =
     (case os_listdir os current_path of
        Inl PermissionError \<Rightarrow> build_tree_loop fuel os ignore_patterns root_path stack root_node
      | Inl e \<Rightarrow> Some (Inl e)
      | Inr items \<Rightarrow>
          (case build_items os ignore_patterns root_path current_path current_node items
                  (root_node, stack) of
             Inl e \<Rightarrow> Some (Inl e)
           | Inr (root1, stack1) \<Rightarrow>
               build_tree_loop fuel os ignore_patterns root_path stack1 root1))"

definition build_tree ::
  "nat \<Rightarrow> os_env \<Rightarrow> TreeNode \<Rightarrow> pystr \<Rightarrow> pystr list option \<Rightarrow> (error + TreeNode) option" where
  "build_tree fuel os root_node root_path ignore_patterns =
     build_tree_loop fuel os ignore_patterns root_path [([], root_path)] root_node"

text \<open>The same two loops in \<open>_build_tree_with_depth\<close>.\<close>

fun build_items_with_depth ::
  "os_env \<Rightarrow> pystr list option \<Rightarrow> int \<Rightarrow> int \<Rightarrow> pystr \<Rightarrow> pystr \<Rightarrow> ref \<Rightarrow> int \<Rightarrow> pystr list
     \<Rightarrow> TreeNode \<times> (ref \<times> pystr \<times> int) list
     \<Rightarrow> error + (TreeNode \<times> (ref \<times> pystr \<times> int) list)" where
  "build_items_with_depth os ignore_patterns folder_depth file_depth root_path current_path
       current_node current_folder_depth [] state = Inr state"
| "build_items_with_depth os ignore_patterns folder_depth file_depth root_path current_path
       current_node current_folder_depth (item # items) state =
     (case state of (root_node, stack) \<Rightarrow>
        let item_path = path_join current_path item;
            relative_path = os_relpath os item_path root_path
        in if should_ignore (fnmatch os) (os_isdir os) relative_path ignore_patterns then
             build_items_with_depth os ignore_patterns folder_depth file_depth root_path
               current_path current_node current_folder_depth items state
           else if os_isdir os item_path then
             (if folder_depth \<noteq> 0 \<and> current_folder_depth = folder_depth then
                build_items_with_depth os ignore_patterns folder_depth file_depth root_path
                  current_path current_node current_folder_depth items state
              else
                (case attach root_node current_node (TreeNode_init item False) of
                   Inl e \<Rightarrow> Inl e
                 | Inr (root1, child_node) \<Rightarrow>
                     build_items_with_depth os ignore_patterns folder_depth file_depth root_path
                       current_path current_node current_folder_depth items
                       (root1, (child_node, item_path, current_folder_depth + 1) # stack)))
           else
             (if file_depth \<noteq> 0 \<and> current_folder_depth \<ge> file_depth then
                build_items_with_depth os ignore_patterns folder_depth file_depth root_path
                  current_path current_node current_folder_depth items state
              else
                (case attach root_node current_node (TreeNode_init item True) of
                   Inl e \<Rightarrow> Inl e
                 | Inr (root1, leaf_node) \<Rightarrow>
                     build_items_with_depth os ignore_patterns folder_depth file_depth root_path
                       current_path current_node current_folder_depth items (root1, stack))))"

fun build_tree_with_depth_loop ::
  "nat \<Rightarrow> os_env \<Rightarrow> pystr list option \<Rightarrow> int \<Rightarrow> int \<Rightarrow> pystr
     \<Rightarrow> (ref \<times> pystr \<times> int) list \<Rightarrow> TreeNode \<Rightarrow> (error + TreeNode) option" where
  "build_tree_with_depth_loop 0 os ignore_patterns folder_depth file_depth root_path stack
       root_node = None"
| "build_tree_with_depth_loop (Suc fuel) os ignore_patterns folder_depth file_depth root_path []
       root_node = Some (Inr root_node)"
| "build_tree_with_depth_loop (Suc fuel) os ignore_patterns folder_depth file_depth root_path
       ((current_node, current_path, current_folder_depth) # stack) root_node =
     (if folder_depth \<noteq> 0 \<and> current_folder_depth > folder_depth then
        build_tree_with_depth_loop fuel os ignore_patterns folder_depth file_depth root_path
          stack root_node
      else
        (case os_listdir os current_path of
           Inl PermissionError \<Rightarrow>
             build_tree_with_depth_loop fuel os ignore_patterns folder_depth file_depth
               root_path stack root_node
         | Inl e \<Rightarrow> Some (Inl e)
         | Inr items \<Rightarrow>
             (case build_items_with_depth os ignore_patterns folder_depth file_depth root_path
                     current_path current_node current_folder_depth items (root_node, stack) of
                Inl e \<Rightarrow> Some (Inl e)
              | Inr (root1, stack1) \<Rightarrow>
                  build_tree_with_depth_loop fuel os ignore_patterns folder_depth file_depth
                    root_path stack1 root1)))"

definition build_tree_with_depth ::
  "nat \<Rightarrow> os_env \<Rightarrow> TreeNode \<Rightarrow> pystr \<Rightarrow> int \<times> int \<Rightarrow> pystr list option
     \<Rightarrow> (error + TreeNode) option" where
  "build_tree_with_depth fuel os root_node root_path depth ignore_patterns =
     (case depth of (folder_depth, file_depth) \<Rightarrow>
        build_tree_with_depth_loop fuel os ignore_patterns folder_depth file_depth root_path
          [([], root_path, 0)] root_node)"

section \<open>FileTree\<close>

text \<open>
  \<open>root_node\<close> can be \<open>None\<close>: \<open>from_str\<close> stores whatever \<open>TreeNode.from_repr\<close>
  returned, and \<open>to_dict\<close> tests for it.
\<close>

record FileTree =
  root_path :: pystr
  root_node :: "TreeNode option"

definition FileTree_init ::
  "nat \<Rightarrow> os_env \<Rightarrow> pystr \<Rightarrow> pystr list option \<Rightarrow> (error + FileTree) option" where
  "FileTree_init fuel os path ignore =
     (if \<not> os_exists os path
      then Some (Inl (ValueError (u ''The path '' @ path @ u '' does not exist.'')))
      else
        (case build_tree fuel os (TreeNode_init (basename path) False) path ignore of
           None \<Rightarrow> None
         | Some (Inl e) \<Rightarrow> Some (Inl e)
         | Some (Inr node) \<Rightarrow> Some (Inr \<lparr>root_path = path, root_node = Some node\<rparr>)))"

text \<open>The two components of \<open>depth\<close> are C integers.\<close>

definition TrimmedTree ::
  "nat \<Rightarrow> os_env \<Rightarrow> pystr \<Rightarrow> int \<times> int \<Rightarrow> pystr list option \<Rightarrow> (error + FileTree) option" where
  "TrimmedTree fuel os path depth ignore =
     (if \<not> (c_int (fst depth) \<and> c_int (snd depth)) then Some (Inl OverflowError)
      else
        (case build_tree_with_depth fuel os (TreeNode_init (basename path) False) path depth
                ignore of
           None \<Rightarrow> None
         | Some (Inl e) \<Rightarrow> Some (Inl e)
         | Some (Inr node) \<Rightarrow>
             (case FileTree_init fuel os path (Some [u ''*'']) of
                None \<Rightarrow> None
              | Some (Inl e) \<Rightarrow> Some (Inl e)
              | Some (Inr tree) \<Rightarrow> Some (Inr (tree\<lparr>root_node := Some node\<rparr>)))))"

subsection \<open>Lookup\<close>

text \<open>
  \<open>bisect.bisect_left\<close> of the Python library on a list of nodes; \<open>TreeNode.__lt__\<close>
  compares the names.
\<close>

function bisect_loop :: "TreeNode list \<Rightarrow> TreeNode \<Rightarrow> nat \<Rightarrow> nat \<Rightarrow> nat" where
  "bisect_loop a x lo hi =
     (if lo < hi then
        (let mid = (lo + hi) div 2
         in if name (a ! mid) < name x then bisect_loop a x (mid + 1) hi
            else bisect_loop a x lo mid)
      else lo)"
  by pat_completeness auto
termination
  by (relation "measure (\<lambda>(a, x, lo, hi). hi - lo)") auto

declare bisect_loop.simps [simp del]

definition bisect_left :: "TreeNode list \<Rightarrow> TreeNode \<Rightarrow> nat" where
  "bisect_left a x = bisect_loop a x 0 (length a)"

text \<open>The \<open>for non_leaf_name in sorted(...)\<close> loop of \<open>where\<close>.\<close>

fun where_descend ::
  "TreeNode \<Rightarrow> pystr \<Rightarrow> pystr list \<Rightarrow> (TreeNode \<times> pystr) list \<Rightarrow> (TreeNode \<times> pystr) list" where
  "where_descend current_node current_path [] stack = stack"
| "where_descend current_node current_path (non_leaf_name # rest) stack =
     (let index = bisect_left (children current_node) (TreeNode_init non_leaf_name False)
      in if index < length (children current_node)
            \<and> name (children current_node ! index) = non_leaf_name
         then where_descend current_node current_path rest
                ((children current_node ! index, path_join current_path non_leaf_name) # stack)
         else where_descend current_node current_path rest stack)"

lemma where_descend_size:
  assumes "distinct names"
  shows "sum_list (map (\<lambda>e. size (fst e)) (where_descend n p names st))
           \<le> sum_list (map size (children n)) + sum_list (map (\<lambda>e. size (fst e)) st)"
proof -
  have "\<exists>I. I \<subseteq> {..<length (children n)} \<and> (\<forall>i\<in>I. name (children n ! i) \<in> set names)
         \<and> sum_list (map (\<lambda>e. size (fst e)) (where_descend n p names st))
             = (\<Sum>i\<in>I. size (children n ! i)) + sum_list (map (\<lambda>e. size (fst e)) st)"
    using assms
  proof (induction names arbitrary: st)
    case Nil
    show ?case by (rule exI [of _ "{}"]) simp
  next
    case (Cons nm rest)
    let ?i = "bisect_left (children n) (TreeNode_init nm False)"
    show ?case
    proof (cases "?i < length (children n) \<and> name (children n ! ?i) = nm")
      case True
      from Cons.IH [of "(children n ! ?i, path_join p nm) # st"] Cons.prems
      obtain I where I: "I \<subseteq> {..<length (children n)}"
          "\<forall>i\<in>I. name (children n ! i) \<in> set rest"
          "sum_list (map (\<lambda>e. size (fst e))
             (where_descend n p rest ((children n ! ?i, path_join p nm) # st)))
           = (\<Sum>i\<in>I. size (children n ! i))
             + sum_list (map (\<lambda>e. size (fst e)) ((children n ! ?i, path_join p nm) # st))"
        by auto
      have fin: "finite I" using I(1) by (meson finite_lessThan finite_subset)
      have notin: "?i \<notin> I" using I(2) True Cons.prems by auto
      show ?thesis
        by (rule exI [of _ "insert ?i I"]) (use True I fin notin in \<open>auto simp: Let_def\<close>)
    next
      case False
      from Cons.IH [of st] Cons.prems
      obtain I where "I \<subseteq> {..<length (children n)}"
          "\<forall>i\<in>I. name (children n ! i) \<in> set rest"
          "sum_list (map (\<lambda>e. size (fst e)) (where_descend n p rest st))
           = (\<Sum>i\<in>I. size (children n ! i)) + sum_list (map (\<lambda>e. size (fst e)) st)"
        by auto
      then show ?thesis
        using False by (intro exI [of _ I]) (auto simp: Let_def)
    qed
  qed
  then obtain I where I: "I \<subseteq> {..<length (children n)}"
      "sum_list (map (\<lambda>e. size (fst e)) (where_descend n p names st))
         = (\<Sum>i\<in>I. size (children n ! i)) + sum_list (map (\<lambda>e. size (fst e)) st)"
    by blast
  have "(\<Sum>i\<in>I. size (children n ! i)) \<le> (\<Sum>i<length (children n). size (children n ! i))"
    using I(1) by (intro sum_mono2) auto
  also have "\<dots> = sum_list (map size (children n))"
    by (simp add: sum_list_sum_nth atLeast0LessThan)
  finally show ?thesis using I(2) by simp
qed

text \<open>
  The \<open>while stack\<close> loop of \<open>where\<close>. \<open>sorted\<close> of a leaf's \<open>None\<close> raises
  \<open>TypeError\<close>.
\<close>

function where_loop :: "pystr \<Rightarrow> (TreeNode \<times> pystr) list \<Rightarrow> error + pystr option" where
  "where_loop target [] = Inr None"
| "where_loop target ((current_node, current_path) # stack) =
     (let index = bisect_left (children current_node) (TreeNode_init target False)
      in if index < length (children current_node)
            \<and> name (children current_node ! index) = target
         then Inr (Some (path_join current_path target))
         else
           (case non_leaf_names current_node of
              None \<Rightarrow> Inl TypeError
            | Some names \<Rightarrow>
                where_loop target
                  (where_descend current_node current_path (sorted_list_of_set names) stack)))"
  by pat_completeness auto
termination
proof (relation "measure (\<lambda>(t, st). sum_list (map (\<lambda>e. size (fst e)) st))", goal_cases)
  case (2 target n p st index names)
  have "distinct (sorted_list_of_set names)" by simp
  from where_descend_size [OF this, of n p st] sum_size_children [of n]
  show ?case by simp
qed simp

text \<open>
  \<open>current_node\<close> is declared \<open>TreeNode\<close>: with a \<open>root_node\<close> of \<open>None\<close> the first
  iteration reads \<open>current_node.children\<close> of \<open>None\<close>.
\<close>

definition FileTree_where :: "FileTree \<Rightarrow> pystr \<Rightarrow> error + pystr option" where
  "FileTree_where self target =
     (case root_node self of
        None \<Rightarrow> Inl Crash
      | Some node \<Rightarrow> where_loop target [(node, root_path self)])"

subsection \<open>Subtree extraction\<close>

text \<open>The \<open>for part in path_parts\<close> loop; \<open>path_queue\<close> is kept in order of arrival.\<close>

definition above_root_message :: pystr where
  "above_root_message = u ''Cannot navigate above the root directory.''"

fun resolve_parts :: "pystr list \<Rightarrow> pystr list \<Rightarrow> error + pystr list" where
  "resolve_parts [] path_queue = Inr path_queue"
| "resolve_parts (part # parts) path_queue =
     (if part = u ''.'' then resolve_parts parts path_queue
      else if part = u ''..'' then
        (if path_queue = []
         then Inl (ValueError above_root_message)
         else resolve_parts parts (butlast path_queue))
      else resolve_parts parts (path_queue @ [part]))"

definition missing_message :: "pystr \<Rightarrow> pystr \<Rightarrow> pystr" where
  "missing_message relative_path part =
     u ''Path '' @ [39] @ relative_path @ [39] @ u '' is invalid. '' @ [39] @ part @ [39]
       @ u '' does not exist.''"

text \<open>The \<open>while path_queue\<close> loop.\<close>

fun navigate :: "pystr \<Rightarrow> TreeNode \<Rightarrow> pystr list \<Rightarrow> error + TreeNode" where
  "navigate relative_path current_node [] = Inr current_node"
| "navigate relative_path current_node (part # path_queue) =
     (let index = bisect_left (children current_node) (TreeNode_init part False)
      in if index < length (children current_node)
            \<and> name (children current_node ! index) = part
         then navigate relative_path (children current_node ! index) path_queue
         else Inl (ValueError (missing_message relative_path part)))"

text \<open>
  \<open>current_node\<close> is declared \<open>TreeNode\<close> and starts as \<open>self.root_node\<close>: when that is
  \<open>None\<close> and the queue is not empty, the first iteration reads
  \<open>current_node.children\<close> of \<open>None\<close>.
\<close>

definition FileTree_create_subtree ::
  "nat \<Rightarrow> os_env \<Rightarrow> FileTree \<Rightarrow> pystr \<Rightarrow> (error + FileTree) option" where
  "FileTree_create_subtree fuel os self relative_path =
     (case resolve_parts (split (normpath relative_path) SLASH) [] of
        Inl e \<Rightarrow> Some (Inl e)
      | Inr path_queue \<Rightarrow>
          (case (case root_node self of
                   None \<Rightarrow> (if path_queue = [] then Inr None else Inl Crash)
                 | Some node \<Rightarrow>
                     (case navigate relative_path node path_queue of
                        Inl e \<Rightarrow> Inl e
                      | Inr found \<Rightarrow> Inr (Some found))) of
             Inl e \<Rightarrow> Some (Inl e)
           | Inr current_node \<Rightarrow>
               (case FileTree_init fuel os (path_join (root_path self) relative_path) None of
                  None \<Rightarrow> None
                | Some (Inl e) \<Rightarrow> Some (Inl e)
                | Some (Inr subtree) \<Rightarrow> Some (Inr (subtree\<lparr>root_node := current_node\<rparr>)))))"

subsection \<open>The diagram file\<close>

text \<open>\<open>sub in s\<close>, and \<open>str(n)\<close> for a natural number.\<close>

fun contains :: "pystr \<Rightarrow> pystr \<Rightarrow> bool" where
  "contains sub [] = (sub = [])"
| "contains sub (c # s) = (take (length sub) (c # s) = sub \<or> contains sub s)"

function str_of_nat :: "nat \<Rightarrow> pystr" where
  "str_of_nat n = (if n < 10 then [48 + n] else str_of_nat (n div 10) @ [48 + n mod 10])"
  by pat_completeness auto
termination
  by (relation "measure id") auto

declare str_of_nat.simps [simp del]

definition FENCE :: pystr where
  "FENCE = [BACKTICK, BACKTICK, BACKTICK]"

text \<open>The \<open>for i, line in enumerate(lines)\<close> loop: \<open>start_idx\<close> and \<open>end_idx\<close>.\<close>

fun find_fences :: "(nat \<times> pystr) list \<Rightarrow> nat option \<Rightarrow> nat option \<times> nat option" where
  "find_fences [] start_idx = (start_idx, None)"
| "find_fences ((i, line) # rest) start_idx =
     (if contains FENCE line then
        (case start_idx of
           None \<Rightarrow> find_fences rest (Some i)
         | Some s \<Rightarrow> (start_idx, Some i))
      else find_fences rest start_idx)"

definition missing_fence_message :: pystr where
  "missing_fence_message = u ''Markdown format error: missing matching '' @ FENCE @ u '' markers.''"

definition indent_message :: "nat \<Rightarrow> pystr \<Rightarrow> nat \<Rightarrow> pystr \<Rightarrow> pystr" where
  "indent_message start_indent start_line end_indent end_line =
     u ''Markdown format error: inconsistent indentation for '' @ FENCE @ u '' markers.''
     @ [NL]
     @ u ''Start indent: '' @ str_of_nat start_indent @ u '', line: '' @ [39] @ start_line
     @ [39] @ [NL]
     @ u ''End indent: '' @ str_of_nat end_indent @ u '', line: '' @ [39] @ end_line @ [39]"

text \<open>
  \<open>root_node\<close> is declared \<open>TreeNode\<close>: when \<open>TreeNode.from_md\<close> returns \<open>None\<close> (the
  text between the fences is blank), \<open>root_node.get_name()\<close> is called on \<open>None\<close>.
\<close>

definition FileTree_from_md ::
  "nat \<Rightarrow> os_env \<Rightarrow> pystr \<Rightarrow> (error + FileTree option) option" where
  "FileTree_from_md fuel os md_str =
     (let lines = splitlines md_str
      in if lines = [] then Some (Inr None)
         else
           (case find_fences (zip [0..<length lines] lines) None of
              (Some start_idx, Some end_idx) \<Rightarrow>
                (let start_indent = length (lines ! start_idx) - length (lstrip (lines ! start_idx));
                     end_indent = length (lines ! end_idx) - length (lstrip (lines ! end_idx))
                 in if start_indent \<noteq> end_indent then
                      Some (Inl (ValueError (indent_message start_indent (lines ! start_idx)
                                               end_indent (lines ! end_idx))))
                    else
                      (let md_content = join [NL]
                             (map (\<lambda>line. rstrip (drop start_indent line))
                                (take (end_idx - (start_idx + 1)) (drop (start_idx + 1) lines)))
                       in case from_md md_content of
                            Inl e \<Rightarrow> Some (Inl e)
                          | Inr None \<Rightarrow> Some (Inl Crash)
                          | Inr (Some node) \<Rightarrow>
                              (case FileTree_init fuel os (name node) None of
                                 None \<Rightarrow> None
                               | Some (Inl e) \<Rightarrow> Some (Inl e)
                               | Some (Inr tree) \<Rightarrow>
                                   Some (Inr (Some (tree\<lparr>root_node := Some node\<rparr>))))))
            | _ \<Rightarrow>
                Some (Inl (ValueError missing_fence_message))))"

section \<open>Notions used to state the properties\<close>

subsection \<open>Sample data\<close>

text \<open>
  An operating system in which every path exists, no path is a directory and every
  listing is empty; the documents and trees of the examples.
\<close>

definition demo_os :: os_env where
  "demo_os = \<lparr>os_listdir = (\<lambda>p. Inr []), os_isdir = (\<lambda>p. False), os_exists = (\<lambda>p. True),
     os_relpath = (\<lambda>p r. p), fnmatch = glob\<rparr>"

definition doc_nofence :: pystr where
  "doc_nofence = u ''root/''"

definition doc_mismatch :: pystr where
  "doc_mismatch = u ''  '' @ FENCE @ [NL] @ u ''  root/'' @ [NL] @ u ''    '' @ FENCE"

definition doc_match :: pystr where
  "doc_match = u ''  '' @ FENCE @ [NL] @ u ''  root/'' @ [NL] @ u ''  '' @ FENCE"

subsection \<open>Fences\<close>

text \<open>
  The indices of the lines that hold the fence marker, the width of a line's leading
  white space, the text between two fence lines as \<open>FileTree.from_md\<close> cuts it out,
  and what \<open>FileTree.from_md\<close> makes of the decoded root.
\<close>

definition fence_lines :: "pystr list \<Rightarrow> nat list" where
  "fence_lines lines = filter (\<lambda>i. contains FENCE (lines ! i)) [0..<length lines]"

definition indent_width :: "pystr \<Rightarrow> nat" where
  "indent_width line = length line - length (lstrip line)"

definition fenced_content :: "pystr list \<Rightarrow> nat \<Rightarrow> nat \<Rightarrow> pystr" where
  "fenced_content lines i j =
     join [NL] (map (\<lambda>line. rstrip (drop (indent_width (lines ! i)) line))
       (take (j - (i + 1)) (drop (i + 1) lines)))"

definition FileTree_of_root ::
  "nat \<Rightarrow> os_env \<Rightarrow> error + TreeNode option \<Rightarrow> (error + FileTree option) option" where
  "FileTree_of_root fuel os decoded =
     (case decoded of
        Inl e \<Rightarrow> Some (Inl e)
      | Inr None \<Rightarrow> Some (Inl Crash)
      | Inr (Some node) \<Rightarrow>
          (case FileTree_init fuel os (name node) None of
             None \<Rightarrow> None
           | Some (Inl e) \<Rightarrow> Some (Inl e)
           | Some (Inr tree) \<Rightarrow> Some (Inr (Some (tree\<lparr>root_node := Some node\<rparr>)))))"

subsection \<open>What the encoders emit\<close>

text \<open>
  The depth test of the listing encoder, and the nodes that pass it together with all
  their ancestors, in preorder with their levels: a node that fails is left out with
  its whole subtree, its siblings are not affected.
\<close>

definition within_caps :: "int \<Rightarrow> int \<Rightarrow> int \<Rightarrow> TreeNode \<Rightarrow> bool" where
  "within_caps folder_depth file_depth level n \<longleftrightarrow>
     (if is_leaf n then \<not> (file_depth \<noteq> 0 \<and> level > file_depth)
      else \<not> (folder_depth \<noteq> 0 \<and> level > folder_depth))"

function kept_nodes :: "int \<Rightarrow> int \<Rightarrow> int \<Rightarrow> TreeNode \<Rightarrow> (TreeNode \<times> int) list" where
  "kept_nodes fd ld level n =
     (if \<not> within_caps fd ld level n then []
      else if is_leaf n then [(n, level)]
      else (n, level) # concat (map (kept_nodes fd ld (level + 1)) (children n)))"
  by pat_completeness auto
termination
proof (relation "measure (\<lambda>(fd, ld, l, n). size n)", goal_cases)
  case (2 fd ld level n x)
  then have "size x \<le> sum_list (map size (children n))"
    by (simp add: member_le_sum_list)
  then show ?case using sum_size_children [of n] by simp
qed simp

declare kept_nodes.simps [simp del]

text \<open>What the listing encoder appends for one node.\<close>

definition repr_piece :: "TreeNode \<times> int \<Rightarrow> pystr" where
  "repr_piece e =
     (case e of (n, level) \<Rightarrow>
        (if level > 0 then [NL] @ indent_of level @ u ''|-- '' @ name n else name n)
        @ (if \<not> is_leaf n then [SLASH] else []))"

text \<open>
  The line the diagram encoder writes for one stack entry, the entries one iteration
  pushes, and all entries the loop goes through, in the order it pops them.
\<close>

definition md_line :: "TreeNode \<times> int \<times> bool \<times> pystr \<Rightarrow> pystr" where
  "md_line e =
     (case e of (n, level, is_last, cp) \<Rightarrow>
        cp @ (if level > 0 then (if is_last then LAST_CONNECTOR else MID_CONNECTOR) else [])
        @ name n @ (if \<not> is_leaf n then [SLASH] else []))"

definition md_children ::
  "pystr \<Rightarrow> int \<Rightarrow> int \<Rightarrow> TreeNode \<times> int \<times> bool \<times> pystr
     \<Rightarrow> (TreeNode \<times> int \<times> bool \<times> pystr) list" where
  "md_children pfx fd ld e =
     (case e of (n, level, is_last, cp) \<Rightarrow> md_next_stack pfx fd ld n level is_last cp [])"

lemma md_children_size:
  assumes "x \<in> set (md_children pfx fd ld e)"
  shows "size (fst x) < size (fst e)"
proof -
  obtain n level il cp where e: "e = (n, level, il, cp)" by (cases e) auto
  have "size (fst x) \<le> sum_list (map (\<lambda>e. size (fst e)) (md_children pfx fd ld e))"
    using assms by (induction "md_children pfx fd ld e") (auto simp: member_le_sum_list)
  also have "\<dots> < size n"
    using md_next_stack_size [of pfx fd ld n level il cp "[]"] by (simp add: md_children_def e)
  finally show ?thesis by (simp add: e)
qed

function md_entries ::
  "pystr \<Rightarrow> int \<Rightarrow> int \<Rightarrow> TreeNode \<times> int \<times> bool \<times> pystr
     \<Rightarrow> (TreeNode \<times> int \<times> bool \<times> pystr) list" where
  "md_entries pfx fd ld e = e # concat (map (md_entries pfx fd ld) (md_children pfx fd ld e))"
  by pat_completeness auto
termination
  by (relation "measure (\<lambda>(pfx, fd, ld, e). size (fst e))") (simp_all add: md_children_size)

declare md_entries.simps [simp del]

subsection \<open>Sample trees\<close>

definition leaf :: "string \<Rightarrow> TreeNode" where
  "leaf nm = TreeNode (u nm) True [] None"

definition dir :: "string \<Rightarrow> TreeNode list \<Rightarrow> TreeNode" where
  "dir nm cs = TreeNode (u nm) False cs (Some (set (map name (filter (\<lambda>c. \<not> is_leaf c) cs))))"

definition example_tree :: TreeNode where
  "example_tree = dir ''root'' [dir ''a'' [leaf ''b.txt''], leaf ''c.txt'']"

definition small_tree :: TreeNode where
  "small_tree = dir ''root'' [leaf ''f'']"

subsection \<open>Appending through a reference\<close>

text \<open>
  The node \<open>add_child\<close> leaves behind when it does not raise, the tree in which the
  node a reference points to has been replaced by its image under \<open>f\<close>, and the
  condition under which \<open>add_child\<close> does not raise.
\<close>

definition with_child :: "TreeNode \<Rightarrow> TreeNode \<Rightarrow> TreeNode" where
  "with_child n c =
     TreeNode (name n) (is_leaf n) (children n @ [c])
       (if is_leaf c then non_leaf_names n
        else map_option (insert (name c)) (non_leaf_names n))"

fun map_at :: "(TreeNode \<Rightarrow> TreeNode) \<Rightarrow> ref \<Rightarrow> TreeNode \<Rightarrow> TreeNode" where
  "map_at f [] t = f t"
| "map_at f (i # p) t =
     (if i < length (children t)
      then TreeNode (name t) (is_leaf t) ((children t)[i := map_at f p (children t ! i)])
             (non_leaf_names t)
      else t)"

definition can_adopt :: "TreeNode \<Rightarrow> TreeNode \<Rightarrow> bool" where
  "can_adopt n c \<longleftrightarrow> (\<not> is_leaf c \<longrightarrow> non_leaf_names n \<noteq> None)"

subsection \<open>The name-set invariant\<close>

text \<open>
  In every directory of the tree, \<open>non_leaf_names\<close> is the set of the names of the
  children that are not leaves.
\<close>

fun names_inv :: "TreeNode \<Rightarrow> bool" where
  "names_inv (TreeNode nm lf cs s) \<longleftrightarrow>
     (\<not> lf \<longrightarrow> s = Some (set (map name (filter (\<lambda>c. \<not> is_leaf c) cs))))
     \<and> (\<forall>c \<in> set cs. names_inv c)"

subsection \<open>The depth-bounded walk\<close>




fun depth_ok :: "int \<Rightarrow> int \<Rightarrow> int \<Rightarrow> TreeNode \<Rightarrow> bool" where
  "depth_ok fd ld lvl (TreeNode nm lf cs s) \<longleftrightarrow>
     (if lf then ld > 0 \<longrightarrow> lvl \<le> ld else fd > 0 \<longrightarrow> lvl \<le> fd)
     \<and> (\<forall>c \<in> set cs. depth_ok fd ld (lvl + 1) c)"

subsection \<open>A sample file system\<close>

text \<open>
  The directory \<open>root\<close> with the directory \<open>a\<close>, holding the file \<open>b.txt\<close>, and the
  file \<open>c.txt\<close>; the tree a walk capped at \<open>(1, 1)\<close> builds from it; the three
  encodings of \<open>example_tree\<close>.
\<close>

definition example_os :: os_env where
  "example_os = \<lparr>
     os_listdir = (\<lambda>p. if normpath p = u ''root'' then Inr [u ''a'', u ''c.txt'']
                        else if normpath p = u ''root/a'' then Inr [u ''b.txt'']
                        else Inl NotADirectoryError),
     os_isdir = (\<lambda>p. normpath p = u ''root'' \<or> normpath p = u ''root/a''),
     os_exists = (\<lambda>p. normpath p = u ''root'' \<or> normpath p = u ''root/a''
                      \<or> normpath p = u ''root/a/b.txt'' \<or> normpath p = u ''root/c.txt''),
     os_relpath = (\<lambda>p start. drop (length start + 1) p),
     fnmatch = glob\<rparr>"


definition example_dict :: pydict where
  "example_dict =
     [(u ''root'', PDict [(u ''a'', PDict [(u ''b.txt'', PNone)]), (u ''c.txt'', PNone)])]"

definition example_diagram :: pystr where
  "example_diagram = u ''root/'' @ [NL] @ MID_CONNECTOR @ u ''a/'' @ [NL]
     @ BAR_CONT @ LAST_CONNECTOR @ u ''b.txt'' @ [NL] @ LAST_CONNECTOR @ u ''c.txt''"

definition example_listing :: pystr where
  "example_listing = u ''root/'' @ [NL] @ u ''    |-- a/'' @ [NL] @ u ''        |-- b.txt''"

subsection \<open>Navigation\<close>

text \<open>
  A tree whose children lists are sorted by name, at every node. A list of path
  components ascends above the root when some prefix of it holds more \<open>..\<close> than
  names (\<open>asc parts n\<close>: more \<open>..\<close> than \<open>n\<close> plus the names). \<open>has_path t q\<close> says
  that the names \<open>q\<close> lead from \<open>t\<close> down to some node; \<open>descend\<close> follows the first
  child of each name and returns the node reached or the first name it does not find.
\<close>

fun sorted_tree :: "TreeNode \<Rightarrow> bool" where
  "sorted_tree (TreeNode nm lf cs s) \<longleftrightarrow>
     sorted (map name cs) \<and> (\<forall>c \<in> set cs. sorted_tree c)"

definition ascends_above :: "pystr list \<Rightarrow> bool" where
  "ascends_above parts \<longleftrightarrow>
     (\<exists>k \<le> length parts.
        length (filter (\<lambda>p. p = u ''..'') (take k parts))
          > length (filter (\<lambda>p. p \<noteq> u ''..'' \<and> p \<noteq> u ''.'') (take k parts)))"

definition asc :: "pystr list \<Rightarrow> nat \<Rightarrow> bool" where
  "asc parts n \<longleftrightarrow>
     (\<exists>k \<le> length parts.
        length (filter (\<lambda>p. p = u ''..'') (take k parts))
          > n + length (filter (\<lambda>p. p \<noteq> u ''..'' \<and> p \<noteq> u ''.'') (take k parts)))"

fun has_path :: "TreeNode \<Rightarrow> pystr list \<Rightarrow> bool" where
  "has_path t [] = True"
| "has_path t (part # q) = (\<exists>c \<in> set (children t). name c = part \<and> has_path c q)"

fun descend :: "TreeNode \<Rightarrow> pystr list \<Rightarrow> pystr + TreeNode" where
  "descend t [] = Inr t"
| "descend t (part # q) =
     (case find (\<lambda>c. name c = part) (children t) of
        None \<Rightarrow> Inl part
      | Some c \<Rightarrow> descend c q)"

definition example_filetree :: FileTree where
  "example_filetree = \<lparr>root_path = u ''root'', root_node = Some example_tree\<rparr>"

subsection \<open>Lookup\<close>

text \<open>
  A tree whose children lists are sorted by name with no name twice among siblings.
  \<open>search_from\<close> is the search \<open>where\<close> performs: at a directory, the target is looked
  for among all children; when it is not there, the directory children are searched
  one after the other, the one with the greatest name first. \<open>search_alphabetical\<close> is
  the same search with the directory children taken in alphabetical order.
  \<open>occurs_below t target\<close> says that \<open>target\<close> is the name of a node below \<open>t\<close>.
\<close>

fun strict_sorted_tree :: "TreeNode \<Rightarrow> bool" where
  "strict_sorted_tree (TreeNode nm lf cs s) \<longleftrightarrow>
     sorted_wrt (<) (map name cs) \<and> (\<forall>c \<in> set cs. strict_sorted_tree c)"

fun first_some :: "'a option list \<Rightarrow> 'a option" where
  "first_some [] = None"
| "first_some (None # xs) = first_some xs"
| "first_some (Some y # xs) = Some y"

definition subdirs :: "TreeNode \<Rightarrow> TreeNode list" where
  "subdirs t = filter (\<lambda>c. \<not> is_leaf c) (children t)"

lemma subdirs_size: "d \<in> set (subdirs t) \<Longrightarrow> size d < size t"
  using sum_size_children [of t] member_le_sum_list [of "size d" "map size (children t)"]
  by (auto simp: subdirs_def)

function search_from :: "pystr \<Rightarrow> TreeNode \<Rightarrow> pystr \<Rightarrow> pystr option" where
  "search_from path t target =
     (if target \<in> set (map name (children t)) then Some (path_join path target)
      else first_some (map (\<lambda>d. search_from (path_join path (name d)) d target)
                         (rev (subdirs t))))"
  by pat_completeness auto
termination
  by (relation "measure (\<lambda>(path, t, target). size t)") (simp_all add: subdirs_size)

declare search_from.simps [simp del]

declare search_from.simps [simp del]

function search_alphabetical :: "pystr \<Rightarrow> TreeNode \<Rightarrow> pystr \<Rightarrow> pystr option" where
  "search_alphabetical path t target =
     (if target \<in> set (map name (children t)) then Some (path_join path target)
      else first_some (map (\<lambda>d. search_alphabetical (path_join path (name d)) d target)
                         (subdirs t)))"
  by pat_completeness auto
termination
  by (relation "measure (\<lambda>(path, t, target). size t)") (simp_all add: subdirs_size)

declare search_alphabetical.simps [simp del]

declare search_alphabetical.simps [simp del]

function occurs_below :: "TreeNode \<Rightarrow> pystr \<Rightarrow> bool" where
  "occurs_below t target \<longleftrightarrow>
     target \<in> set (map name (children t)) \<or> (\<exists>d \<in> set (subdirs t). occurs_below d target)"
  by pat_completeness auto
termination
  by (relation "measure (\<lambda>(t, target). size t)") (simp_all add: subdirs_size)

declare occurs_below.simps [simp del]

declare occurs_below.simps [simp del]

definition twin_tree :: TreeNode where
  "twin_tree = dir ''root'' [dir ''a'' [leaf ''x''], dir ''b'' [leaf ''x'']]"

subsection \<open>Node Trees and the mapping codec\<close>

text \<open>
  What \<open>to_dict\<close> and \<open>from_dict\<close> compute, written by recursion on the tree and on
  the mapping: the value \<open>to_dict\<close> stores under the name of a node, and the node
  \<open>from_dict\<close> builds from a key and its value.
\<close>

lemma child_size: "c \<in> set (children t) \<Longrightarrow> size c < size t"
  using sum_size_children [of t] member_le_sum_list [of "size c" "map size (children t)"]
  by auto

function dict_of :: "TreeNode \<Rightarrow> pyval" where
  "dict_of t =
     (if is_leaf t then PNone
      else PDict (foldl (\<lambda>d c. dict_set d (name c) (dict_of c)) [] (children t)))"
  by pat_completeness auto
termination
  by (relation "measure size") (simp_all add: child_size)

declare dict_of.simps [simp del]

lemma item_size: "kv \<in> set items \<Longrightarrow> vsize (snd kv) < vsize (PDict items)"
  using member_le_sum_list [of "vsize (snd kv)" "map (\<lambda>kv. vsize (snd kv)) items"]
  by auto

function tree_of :: "pystr \<Rightarrow> pyval \<Rightarrow> TreeNode" where
  "tree_of nm v =
     (if v = PNone then TreeNode_init nm True
      else foldl with_child (TreeNode_init nm False)
             (map (\<lambda>kv. tree_of (fst kv) (snd kv)) (items_of v)))"
  by pat_completeness auto
termination
proof (relation "measure (\<lambda>(nm, v). vsize v)", goal_cases)
  case (2 nm v kv)
  then show ?case by (cases v; cases kv) (auto simp: items_of_def dest: item_size)
qed simp

declare tree_of.simps [simp del]

text \<open>
  A Node Tree: a leaf has no children and no name set, a directory's name set holds
  the names of its directory children, and sibling names are distinct.
\<close>

fun node_tree :: "TreeNode \<Rightarrow> bool" where
  "node_tree (TreeNode nm lf cs s) \<longleftrightarrow>
     (if lf then cs = [] \<and> s = None
      else s = Some (set (map name (filter (\<lambda>c. \<not> is_leaf c) cs))))
     \<and> distinct (map name cs) \<and> (\<forall>c \<in> set cs. node_tree c)"

text \<open>
  The dictionary a reference of \<open>to_dict\<close> points to, and the mapping in which that
  dictionary has been replaced by its image under \<open>f\<close>.
\<close>

fun dict_at :: "pydict \<Rightarrow> pystr list \<Rightarrow> pydict option" where
  "dict_at d [] = Some d"
| "dict_at d (k # p) =
     (case map_of d k of Some (PDict inner) \<Rightarrow> dict_at inner p | _ \<Rightarrow> None)"

fun dict_map_at :: "(pydict \<Rightarrow> pydict) \<Rightarrow> pystr list \<Rightarrow> pydict \<Rightarrow> pydict" where
  "dict_map_at f [] d = f d"
| "dict_map_at f (k # p) d =
     (case map_of d k of
        Some (PDict inner) \<Rightarrow> dict_set d k (PDict (dict_map_at f p inner))
      | _ \<Rightarrow> d)"

text \<open>One assignment \<open>parent_dict[node.name] = \<dots>\<close> with the finished value.\<close>

definition ins :: "pydict \<Rightarrow> TreeNode \<Rightarrow> pydict" where
  "ins d c = dict_set d (name c) (dict_of c)"

text \<open>
  Every node of a tree, and every key of a mapping, as the path of names that leads
  to it from the top together with its leaf tag.
\<close>

function tree_entries :: "TreeNode \<Rightarrow> (pystr list \<times> bool) list" where
  "tree_entries t = ([name t], is_leaf t)
     # map (\<lambda>(p, l). (name t # p, l)) (concat (map tree_entries (children t)))"
  by pat_completeness auto
termination
  by (relation "measure size") (simp_all add: child_size)

text \<open>
  Every node of a tree, and every key of a mapping, as the path of names that leads
  to it from the top together with its leaf tag.
\<close>

declare tree_entries.simps [simp del]

lemma item_dsize: "kv \<in> set d \<Longrightarrow> dsize (items_of (snd kv)) < dsize d"
proof -
  assume kv: "kv \<in> set d"
  have "dsize (items_of (snd kv)) < vsize (snd kv)"
    by (cases "snd kv") (simp_all add: dsize_def items_of_def)
  also have "vsize (snd kv) \<le> dsize d"
    unfolding dsize_def using kv by (intro member_le_sum_list) auto
  finally show ?thesis .
qed

function dict_entries :: "pydict \<Rightarrow> (pystr list \<times> bool) list" where
  "dict_entries d = concat (map (\<lambda>kv. ([fst kv], snd kv = PNone)
       # map (\<lambda>(p, l). (fst kv # p, l)) (dict_entries (items_of (snd kv)))) d)"
  by pat_completeness auto
termination
  by (relation "measure dsize") (simp_all add: item_dsize)

declare dict_entries.simps [simp del]

subsection \<open>The diagram decoder, step by step\<close>

text \<open>
  The three values the body of the loop of \<open>from_md\<close> reads off a line (level, name,
  leaf tag), and what it then does with them to the tree and the stack.
\<close>

definition line_fields :: "pystr \<Rightarrow> nat \<times> pystr \<times> bool" where
  "line_fields line =
     (let indent_level = length line - length (lstrip (remove_all [BOX_V] line));
          line_content = strip line
      in (indent_level div 4,
          strip (remove_all [SLASH] (remove_all MID_CONNECTOR
                   (remove_all LAST_CONNECTOR (remove_all [BOX_V] line_content)))),
          \<not> endswith line_content [SLASH]))"

definition place ::
  "TreeNode \<times> ref list \<Rightarrow> nat \<times> pystr \<times> bool \<Rightarrow> error + (TreeNode \<times> ref list)" where
  "place state f =
     (case state of (tree_root, node_stack) \<Rightarrow>
      case f of (level, nm, lf) \<Rightarrow>
        (case pop_to (level + 1) node_stack of
           [] \<Rightarrow> Inl IndexError
         | parent_node # below \<Rightarrow>
             (case attach tree_root parent_node (TreeNode_init nm lf) of
                Inl e \<Rightarrow> Inl e
              | Inr (root1, new_ref) \<Rightarrow>
                  Inr (root1, if \<not> lf then new_ref # parent_node # below
                              else parent_node # below))))"

fun place_all ::
  "TreeNode \<times> ref list \<Rightarrow> (nat \<times> pystr \<times> bool) list \<Rightarrow> error + (TreeNode \<times> ref list)" where
  "place_all state [] = Inr state"
| "place_all state (f # fs) =
     (case place state f of Inl e \<Rightarrow> Inl e | Inr state1 \<Rightarrow> place_all state1 fs)"

text \<open>
  The nodes of a tree in preorder, each with the level, name and tag its line
  decodes to when the tree hangs at level \<open>k\<close>.
\<close>

function preorder_fields :: "nat \<Rightarrow> TreeNode \<Rightarrow> (nat \<times> pystr \<times> bool) list" where
  "preorder_fields k c = (k, name c, is_leaf c) # concat (map (preorder_fields (k + 1)) (children c))"
  by pat_completeness auto
termination
  by (relation "measure (\<lambda>(k, c). size c)") (simp_all add: child_size)

declare preorder_fields.simps [simp del]

text \<open>
  The references to a node and to its ancestors, the node first: the stack of the
  decoder when it has just attached a directory at \<open>p\<close>.
\<close>

definition chain :: "ref \<Rightarrow> ref list" where
  "chain p = map (\<lambda>k. take k p) (rev [0..<Suc (length p)])"

text \<open>
  Names the diagram can carry: not empty, no white space at either end, and no
  \<open>/\<close>, line break or connector character inside. \<open>tidy\<close> is what \<open>strip\<close> and
  \<open>splitlines\<close> need of an encoded line.
\<close>

definition clean :: "pystr \<Rightarrow> bool" where
  "clean nm \<longleftrightarrow> nm \<noteq> [] \<and> \<not> isspace (hd nm) \<and> \<not> isspace (last nm)
     \<and> (\<forall>c \<in> set nm. c \<noteq> SLASH \<and> c \<noteq> BOX_V \<and> c \<noteq> BOX_VR \<and> c \<noteq> BOX_UR
            \<and> \<not> islinebreak c)"

fun clean_tree :: "TreeNode \<Rightarrow> bool" where
  "clean_tree (TreeNode nm lf cs s) \<longleftrightarrow> clean nm \<and> (\<forall>c \<in> set cs. clean_tree c)"

definition tidy :: "pystr \<Rightarrow> bool" where
  "tidy l \<longleftrightarrow> l \<noteq> [] \<and> \<not> isspace (last l) \<and> (\<forall>c \<in> set l. \<not> islinebreak c)"

text \<open>
  The continuation prefix the diagram encoder hands to the children of an entry.
\<close>

definition child_prefix :: "pystr \<Rightarrow> int \<Rightarrow> bool \<Rightarrow> pystr \<Rightarrow> pystr" where
  "child_prefix pfx lvl il cp =
     (if lvl > 0 then cp @ (if il then BLANK_CONT else BAR_CONT) else pfx)"

text \<open>
  The listing of \<open>example_tree\<close> with no depth cap.
\<close>

definition full_listing :: pystr where
  "full_listing = u ''root/'' @ [NL] @ u ''    |-- a/'' @ [NL] @ u ''        |-- b.txt''
     @ [NL] @ u ''    |-- c.txt''"

section \<open>Properties of the pattern matcher\<close>

lemma should_ignore_loop_find:
  "should_ignore_loop fm path ps =
     (case List.find (\<lambda>p. fm path (pattern_glob p)) ps of
        None \<Rightarrow> False
      | Some p \<Rightarrow> \<not> is_negation p)"
  by (induction ps) (simp_all add: pattern_glob_def is_negation_def)

text \<open>
  C3. The patterns are scanned from the last declared to the first, and the first
  pattern of that scan whose glob matches the path decides: a negation gives
  "not ignored", a plain pattern "ignored", and no match at all "not ignored". With
  a matcher that accepts \<open>keep.log\<close> for \<open>*.log\<close> and for \<open>keep.log\<close>, the file
  \<open>keep.log\<close> is not ignored under \<open>["*.log", "!keep.log"]\<close> and is ignored under
  \<open>["!keep.log", "*.log"]\<close>.
\<close>

theorem should_ignore_last_match_wins:
  "should_ignore fm isdir path (Some pats) =
     (case List.find (\<lambda>p. fm (match_path isdir path) (pattern_glob p)) (rev pats) of
        None \<Rightarrow> False
      | Some p \<Rightarrow> \<not> is_negation p)
   \<and> (\<not> isdir (u ''keep.log'') \<and> fm (u ''keep.log'') (u ''*.log'')
        \<and> fm (u ''keep.log'') (u ''keep.log'') \<longrightarrow>
      \<not> should_ignore fm isdir (u ''keep.log'') (Some [u ''*.log'', u ''!keep.log''])
      \<and> should_ignore fm isdir (u ''keep.log'') (Some [u ''!keep.log'', u ''*.log'']))"
proof -
  have general: "\<And>p ps. should_ignore fm isdir p (Some ps) =
     (case List.find (\<lambda>q. fm (match_path isdir p) (pattern_glob q)) (rev ps) of
        None \<Rightarrow> False
      | Some q \<Rightarrow> \<not> is_negation q)"
    by (simp add: should_ignore_def match_path_def should_ignore_loop_find)
  have neg: "is_negation (u ''!keep.log'')" "\<not> is_negation (u ''*.log'')"
    by (simp_all add: is_negation_def startswith_def u_def BANG_def)
  have body: "pattern_glob (u ''!keep.log'') = u ''keep.log''"
    "pattern_glob (u ''*.log'') = u ''*.log''"
    using neg by (simp_all add: pattern_glob_def) (simp add: u_def)
  show ?thesis
    using neg by (simp add: general match_path_def body)
qed

theorem should_ignore_last_match_wins_witness:
  "\<not> should_ignore glob (\<lambda>p. False) (u ''keep.log'') (Some [u ''*.log'', u ''!keep.log''])
   \<and> should_ignore glob (\<lambda>p. False) (u ''keep.log'') (Some [u ''!keep.log'', u ''*.log''])"
proof -
  have "\<not> (\<lambda>p::pystr. False) (u ''keep.log'')" by simp
  moreover have "glob (u ''keep.log'') (u ''*.log'')" by (simp add: u_def)
  moreover have "glob (u ''keep.log'') (u ''keep.log'')" by (simp add: u_def)
  ultimately show ?thesis
    using should_ignore_last_match_wins [of glob "\<lambda>p. False" "u ''keep.log''" "[]"]
    by blast
qed

section \<open>Properties of the diagram file decoder\<close>

lemmas chars = SLASH_def SPACE_def NL_def CR_def BANG_def BACKTICK_def BOX_V_def BOX_VR_def
  BOX_UR_def BOX_H_def FENCE_def u_def

lemma find_fences_Some:
  "find_fences es (Some s) =
     (Some s, case filter (\<lambda>e. contains FENCE (snd e)) es of [] \<Rightarrow> None | e # _ \<Rightarrow> Some (fst e))"
  by (induction es) (auto split: list.splits)

lemma find_fences_None:
  "find_fences es None =
     (case filter (\<lambda>e. contains FENCE (snd e)) es of
        [] \<Rightarrow> (None, None)
      | e # r \<Rightarrow> (Some (fst e), case r of [] \<Rightarrow> None | e' # _ \<Rightarrow> Some (fst e')))"
  by (induction es) (auto simp: find_fences_Some split: list.splits)

lemma zip_upt_nth: "zip [0..<length ls] ls = map (\<lambda>i. (i, ls ! i)) [0..<length ls]"
  by (rule nth_equalityI) simp_all

lemma filter_enumerate:
  "filter (\<lambda>e. contains FENCE (snd e)) (zip [0..<length ls] ls)
     = map (\<lambda>i. (i, ls ! i)) (fence_lines ls)"
  by (simp add: zip_upt_nth fence_lines_def filter_map comp_def)

lemma find_fences_lines:
  "find_fences (zip [0..<length ls] ls) None =
     (case fence_lines ls of
        [] \<Rightarrow> (None, None)
      | [i] \<Rightarrow> (Some i, None)
      | i # j # _ \<Rightarrow> (Some i, Some j))"
  by (simp add: find_fences_None filter_enumerate split: list.splits)

text \<open>
  For a document with at least one line: when fewer than two lines
  hold the fence marker, \<open>FileTree.from_md\<close> raises the "missing markers"
  \<open>ValueError\<close>; otherwise the first two such lines are the fences, and when the widths
  of their leading white space differ (2 against 4, say) it raises the "inconsistent
  indentation" \<open>ValueError\<close>; in both cases nothing is decoded and the file system is
  not touched. When the widths agree, the result is the decoding of the text between
  those two lines; when that text is blank, \<open>TreeNode.from_md\<close> returns \<open>None\<close> and the
  process dies on the call of \<open>get_name\<close>.
\<close>

theorem FileTree_from_md_fences:
  assumes "splitlines md_str \<noteq> []"
  shows "(length (fence_lines (splitlines md_str)) < 2 \<longrightarrow>
            FileTree_from_md fuel os md_str = Some (Inl (ValueError missing_fence_message)))
       \<and> (\<forall>i j rest. fence_lines (splitlines md_str) = i # j # rest \<longrightarrow>
            (indent_width (splitlines md_str ! i) \<noteq> indent_width (splitlines md_str ! j) \<longrightarrow>
               FileTree_from_md fuel os md_str =
                 Some (Inl (ValueError (indent_message
                   (indent_width (splitlines md_str ! i)) (splitlines md_str ! i)
                   (indent_width (splitlines md_str ! j)) (splitlines md_str ! j)))))
          \<and> (indent_width (splitlines md_str ! i) = indent_width (splitlines md_str ! j) \<longrightarrow>
               FileTree_from_md fuel os md_str =
                 FileTree_of_root fuel os (from_md (fenced_content (splitlines md_str) i j))))"
proof -
  let ?ls = "splitlines md_str"
  have few: "length (fence_lines ?ls) < 2 \<Longrightarrow>
      FileTree_from_md fuel os md_str = Some (Inl (ValueError missing_fence_message))"
    using assms
    by (cases "fence_lines ?ls"; cases "tl (fence_lines ?ls)")
       (auto simp: FileTree_from_md_def find_fences_lines Let_def split: list.splits)
  have two: "FileTree_from_md fuel os md_str =
      (if indent_width (?ls ! i) \<noteq> indent_width (?ls ! j)
       then Some (Inl (ValueError (indent_message (indent_width (?ls ! i)) (?ls ! i)
                                      (indent_width (?ls ! j)) (?ls ! j))))
       else FileTree_of_root fuel os (from_md (fenced_content ?ls i j)))"
    if "fence_lines ?ls = i # j # rest" for i j rest
    using assms that
    by (simp add: FileTree_from_md_def find_fences_lines Let_def indent_width_def
        FileTree_of_root_def fenced_content_def)
  show ?thesis
    using few two by auto
qed

lemma lines_mismatch:
  "splitlines doc_mismatch = [u ''  '' @ FENCE, u ''  root/'', u ''    '' @ FENCE]"
  by (simp add: doc_mismatch_def chars splitlines_def islinebreak_def)

lemma lines_match:
  "splitlines doc_match = [u ''  '' @ FENCE, u ''  root/'', u ''  '' @ FENCE]"
  by (simp add: doc_match_def chars splitlines_def islinebreak_def)

lemma from_md_root:
  "from_md (u ''root/'') = Inr (Some (TreeNode (u ''root'') False [] (Some {})))"
  by (simp add: from_md_def chars splitlines_def islinebreak_def strip_def lstrip_def
      rstrip_def isspace_def TreeNode_init_def)

lemma demo_init:
  "FileTree_init 2 demo_os (u ''root'') None =
     Some (Inr \<lparr>root_path = u ''root'',
       root_node = Some (TreeNode (u ''root'') False [] (Some {}))\<rparr>)"
  by (simp add: FileTree_init_def demo_os_def build_tree_def numeral_2_eq_2 basename_def chars
      TreeNode_init_def)

theorem FileTree_from_md_fences_witness:
  "FileTree_from_md 2 demo_os doc_nofence = Some (Inl (ValueError missing_fence_message))
   \<and> FileTree_from_md 2 demo_os doc_mismatch =
     Some (Inl (ValueError (indent_message 2 (u ''  '' @ FENCE) 4 (u ''    '' @ FENCE))))
   \<and> FileTree_from_md 2 demo_os doc_match =
     Some (Inr (Some \<lparr>root_path = u ''root'',
       root_node = Some (TreeNode (u ''root'') False [] (Some {}))\<rparr>))"
proof -
  have l0: "splitlines doc_nofence = [u ''root/'']"
    by (simp add: doc_nofence_def chars splitlines_def islinebreak_def)
  have f0: "fence_lines [u ''root/''] = []"
    by (simp add: fence_lines_def chars)
  have f1: "fence_lines [u ''  '' @ FENCE, u ''  root/'', u ''    '' @ FENCE] = [0, 2]"
    by (simp add: fence_lines_def chars upt_rec)
  have f2: "fence_lines [u ''  '' @ FENCE, u ''  root/'', u ''  '' @ FENCE] = [0, 2]"
    by (simp add: fence_lines_def chars upt_rec)
  have w2: "indent_width (u ''  '' @ FENCE) = 2" "indent_width (u ''    '' @ FENCE) = 4"
    by (simp_all add: indent_width_def chars lstrip_def isspace_def)
  have c: "fenced_content [u ''  '' @ FENCE, u ''  root/'', u ''  '' @ FENCE] 0 2 = u ''root/''"
    by (simp add: fenced_content_def w2) (simp add: chars rstrip_def isspace_def)
  have a: "FileTree_from_md 2 demo_os doc_nofence = Some (Inl (ValueError missing_fence_message))"
    using FileTree_from_md_fences [of doc_nofence 2 demo_os] by (simp add: l0 f0)
  have b: "FileTree_from_md 2 demo_os doc_mismatch =
     Some (Inl (ValueError (indent_message 2 (u ''  '' @ FENCE) 4 (u ''    '' @ FENCE))))"
    using FileTree_from_md_fences [of doc_mismatch 2 demo_os]
    by (simp add: lines_mismatch f1 w2)
  have d: "FileTree_from_md 2 demo_os doc_match =
     Some (Inr (Some \<lparr>root_path = u ''root'',
       root_node = Some (TreeNode (u ''root'') False [] (Some {}))\<rparr>))"
    using FileTree_from_md_fences [of doc_match 2 demo_os]
    by (simp add: lines_match f2 w2 c from_md_root FileTree_of_root_def demo_init)
  show ?thesis using a b d by simp
qed

text \<open>
  C8. The empty document holds no fence marker, so its code block is missing; the
  guard \<open>if not lines: return None\<close> comes before the fence check, and
  \<open>FileTree.from_md\<close> returns \<open>None\<close> for it instead of raising \<open>ValueError\<close>.
\<close>

theorem FileTree_from_md_empty_document:
  "fence_lines (splitlines []) = [] \<and> FileTree_from_md 0 demo_os [] = Some (Inr None)"
  by (simp add: fence_lines_def splitlines_def FileTree_from_md_def)

text \<open>
  Two fence lines with nothing between them: the fences match, the text between them
  is empty, \<open>TreeNode.from_md\<close> returns \<open>None\<close>, and \<open>get_name\<close> is called on it.
\<close>

lemma FileTree_from_md_blank_block:
  "FileTree_from_md 0 demo_os (FENCE @ [NL] @ FENCE) = Some (Inl Crash)"
  by (simp add: FileTree_from_md_def Let_def from_md_def chars strip_def lstrip_def rstrip_def
      isspace_def islinebreak_def splitlines_def upt_rec)

section \<open>Properties of the encoders under depth caps\<close>

lemma to_repr_loop_kept:
  "to_repr_loop fd ld stack acc =
     acc @ concat (map repr_piece (concat (map (\<lambda>(n, l). kept_nodes fd ld l n) stack)))"
proof (induction fd ld stack acc rule: to_repr_loop.induct)
  case (1 fd ld acc)
  show ?case by simp
next
  case (2 fd ld n lvl stack acc)
  note kn = kept_nodes.simps [of fd ld lvl n]
  show ?case
  proof (cases "within_caps fd ld lvl n")
    case False
    then show ?thesis
      using 2(1,2) by (auto simp: kn within_caps_def split: if_splits)
  next
    case True
    show ?thesis
    proof (cases "is_leaf n")
      case leaf: True
      then show ?thesis
        using True 2(4) by (auto simp: kn within_caps_def repr_piece_def Let_def)
    next
      case dir: False
      have "concat (map (\<lambda>(n, l). kept_nodes fd ld l n) (map (\<lambda>child. (child, lvl + 1)) cs))
            = concat (map (kept_nodes fd ld (lvl + 1)) cs)" for cs
        by (induction cs) simp_all
      then show ?thesis
        using True dir 2(3)
        by (auto simp: kn within_caps_def repr_piece_def Let_def push_each_rev rev_map)
    qed
  qed
qed

lemma kept_nodes_caps:
  "(m, l) \<in> set (kept_nodes fd ld level n) \<Longrightarrow> within_caps fd ld l m \<and> level \<le> l"
proof (induction fd ld level n arbitrary: m l rule: kept_nodes.induct)
  case (1 fd ld level n)
  note kn = kept_nodes.simps [of fd ld level n]
  show ?case
  proof (cases "within_caps fd ld level n \<and> \<not> is_leaf n")
    case False
    then show ?thesis using "1.prems" by (auto simp: kn split: if_splits)
  next
    case True
    then consider "(m, l) = (n, level)"
      | c where "c \<in> set (children n)" "(m, l) \<in> set (kept_nodes fd ld (level + 1) c)"
      using "1.prems" by (auto simp: kn)
    then show ?thesis
    proof cases
      case 1
      then show ?thesis using True by simp
    next
      case 2
      with "1.IH" [of c m l] True show ?thesis by auto
    qed
  qed
qed


lemma md_next_stack_append:
  "md_next_stack pfx fd ld n level il cp st = md_children pfx fd ld (n, level, il, cp) @ st"
  by (simp add: md_children_def md_next_stack_def md_push_def push_each_rev Let_def)

lemma join_Cons: "join sep (x # xs) = x @ (if xs = [] then [] else sep @ join sep xs)"
  by (cases xs) simp_all

lemma to_md_loop_lines:
  "to_md_loop pfx fd ld stack acc =
     acc @ join [NL] (map md_line (concat (map (md_entries pfx fd ld) stack)))"
proof (induction "sum_list (map (\<lambda>e. size (fst e)) stack)" arbitrary: stack acc rule: less_induct)
  case less
  show ?case
  proof (cases stack)
    case Nil
    then show ?thesis by simp
  next
    case (Cons e0 rest0)
    obtain n lvl il cp where e0: "e0 = (n, lvl, il, cp)" by (cases e0) auto
    let ?e = "(n, lvl, il, cp)"
    let ?st1 = "md_children pfx fd ld ?e @ rest0"
    let ?rest = "map md_line (concat (map (md_entries pfx fd ld) ?st1))"
    let ?acc1 = "acc @ md_line ?e @ (if ?st1 \<noteq> [] then [NL] else [])"
    have ne: "?rest = [] \<longleftrightarrow> ?st1 = []"
      by (cases ?st1) (simp_all add: md_entries.simps [of pfx fd ld])
    have ent: "concat (map (md_entries pfx fd ld) (?e # rest0))
        = ?e # concat (map (md_entries pfx fd ld) ?st1)"
      by (simp add: md_entries.simps [of pfx fd ld ?e])
    have step: "to_md_loop pfx fd ld (?e # rest0) acc = to_md_loop pfx fd ld ?st1 ?acc1"
      by (simp add: Let_def md_next_stack_append md_line_def)
    have "sum_list (map (\<lambda>e. size (fst e)) ?st1) < sum_list (map (\<lambda>e. size (fst e)) stack)"
      using md_next_stack_size [of pfx fd ld n lvl il cp rest0]
      by (simp add: md_next_stack_append Cons e0)
    then have IH: "to_md_loop pfx fd ld ?st1 ?acc1 = ?acc1 @ join [NL] ?rest"
      by (rule less)
    have "acc @ join [NL] (map md_line (concat (map (md_entries pfx fd ld) (?e # rest0))))
        = acc @ md_line ?e @ (if ?rest = [] then [] else [NL] @ join [NL] ?rest)"
      by (subst ent) (simp add: join_Cons)
    also have "\<dots> = ?acc1 @ join [NL] ?rest"
      using ne by (cases "?st1 = []") simp_all
    finally show ?thesis using step IH by (simp add: Cons e0)
  qed
qed

lemma md_push_nodes:
  "map fst (md_push cs lvl np []) = cs"
  "x \<in> set (md_push cs lvl np []) \<Longrightarrow> fst (snd x) = lvl + 1"
proof -
  show "map fst (md_push cs lvl np []) = cs"
    by (cases "cs = []") (simp_all add: md_push_def push_each_rev rev_map comp_def)
  show "x \<in> set (md_push cs lvl np []) \<Longrightarrow> fst (snd x) = lvl + 1"
    by (cases "cs = []") (auto simp: md_push_def push_each_rev)
qed

lemma md_children_nodes:
  "map fst (md_children pfx fd ld (n, lvl, il, cp)) =
     (if is_leaf n then [] else filter (within_caps fd ld (lvl + 1)) (children n))"
proof -
  have v: "md_valid fd ld lvl = within_caps fd ld (lvl + 1)"
    by (rule ext) (auto simp: md_valid_def within_caps_def)
  have all: "filter (within_caps 0 0 (lvl + 1)) cs = cs" for cs
    by (simp add: within_caps_def)
  show ?thesis
    by (cases "fd = 0 \<and> ld = 0")
       (auto simp: md_children_def md_next_stack_def Let_def md_push_nodes v all)
qed

lemma md_children_level:
  "x \<in> set (md_children pfx fd ld (n, lvl, il, cp)) \<Longrightarrow> fst (snd x) = lvl + 1"
  by (auto simp: md_children_def md_next_stack_def Let_def md_push_nodes split: if_splits)

lemma md_entries_kept:
  "within_caps fd ld lvl n \<Longrightarrow>
   map (\<lambda>e. (fst e, fst (snd e))) (md_entries pfx fd ld (n, lvl, il, cp)) = kept_nodes fd ld lvl n"
proof (induction "size n" arbitrary: n lvl il cp rule: less_induct)
  case less
  note kn = kept_nodes.simps [of fd ld lvl n]
  note me = md_entries.simps [of pfx fd ld "(n, lvl, il, cp)"]
  let ?proj = "\<lambda>e :: TreeNode \<times> int \<times> bool \<times> pystr. (fst e, fst (snd e))"
  show ?case
  proof (cases "is_leaf n")
    case True
    have "md_children pfx fd ld (n, lvl, il, cp) = []"
      using md_children_nodes [of pfx fd ld n lvl il cp] True by simp
    then show ?thesis using True less.prems by (simp add: kn me)
  next
    case False
    let ?cs = "filter (within_caps fd ld (lvl + 1)) (children n)"
    let ?xs = "md_children pfx fd ld (n, lvl, il, cp)"
    have nodes: "map fst ?xs = ?cs"
      using md_children_nodes [of pfx fd ld n lvl il cp] False by simp
    have each: "map ?proj (md_entries pfx fd ld x) = kept_nodes fd ld (lvl + 1) (fst x)"
      if "x \<in> set ?xs" for x
    proof -
      obtain c l b np where x: "x = (c, l, b, np)" by (cases x) auto
      have l: "l = lvl + 1" using md_children_level [OF that] x by simp
      have "c \<in> set ?cs" using that nodes x by (metis fst_conv image_eqI set_map)
      then have c: "c \<in> set (children n)" "within_caps fd ld (lvl + 1) c" by auto
      have "size c < size n"
        using sum_size_children [of n] member_le_sum_list [of "size c" "map size (children n)"] c
        by auto
      from less.hyps [OF this c(2)] show ?thesis by (simp add: x l)
    qed
    have drop_out: "concat (map (kept_nodes fd ld (lvl + 1)) cs)
        = concat (map (kept_nodes fd ld (lvl + 1)) (filter (within_caps fd ld (lvl + 1)) cs))"
      for cs
      by (induction cs) (simp_all add: kept_nodes.simps [of fd ld "lvl + 1"])
    have "concat (map (\<lambda>x. map ?proj (md_entries pfx fd ld x)) ?xs)
          = concat (map (\<lambda>x. kept_nodes fd ld (lvl + 1) (fst x)) ?xs)"
      using each by (intro arg_cong [where f = concat] map_cong refl)
    also have "\<dots> = concat (map (kept_nodes fd ld (lvl + 1)) (map fst ?xs))"
      by (simp add: comp_def)
    also have "\<dots> = concat (map (kept_nodes fd ld (lvl + 1)) (children n))"
      by (simp only: nodes drop_out [symmetric])
    finally show ?thesis
      using False less.prems by (simp add: kn me map_concat comp_def)
  qed
qed


lemma kept_children:
  "(n, l) \<in> set (kept_nodes fd ld lvl t) \<Longrightarrow> \<not> is_leaf n \<Longrightarrow> c \<in> set (children n) \<Longrightarrow>
   within_caps fd ld (l + 1) c \<Longrightarrow> (c, l + 1) \<in> set (kept_nodes fd ld lvl t)"
proof (induction fd ld lvl t rule: kept_nodes.induct)
  case (1 fd ld level t)
  note kn = kept_nodes.simps [of fd ld level t]
  have head: "within_caps fd ld l' m \<Longrightarrow> (m, l') \<in> set (kept_nodes fd ld l' m)" for m l'
    by (simp add: kept_nodes.simps [of fd ld l' m])
  show ?case
  proof (cases "within_caps fd ld level t \<and> \<not> is_leaf t")
    case False
    then show ?thesis using "1.prems" by (auto simp: kn split: if_splits)
  next
    case True
    then consider "(n, l) = (t, level)"
      | d where "d \<in> set (children t)" "(n, l) \<in> set (kept_nodes fd ld (level + 1) d)"
      using "1.prems"(1) by (auto simp: kn)
    then show ?thesis
    proof cases
      case 1
      then show ?thesis
        using True "1.prems" head [of "level + 1" c] by (auto simp: kn)
    next
      case 2
      from "1.IH" [OF _ _ 2(1) 2(2) "1.prems"(2,3,4)] True 2(1)
      show ?thesis by (auto simp: kn)
    qed
  qed
qed

text \<open>
  C4, as amended. With caps \<open>(fd, ld)\<close> that are not negative and fit a C integer
  (a cap of \<open>2 ^ 31\<close> or more raises \<open>OverflowError\<close> on entry), the listing is the
  concatenation of one piece per node of \<open>kept_nodes\<close> and the diagram has one line per
  node of \<open>kept_nodes\<close>, in that order. Among these nodes no directory stands at a
  level above a non-zero \<open>fd\<close> and no leaf at a level above a non-zero \<open>ld\<close> (a leaf at
  level \<open>ld\<close> itself is written). Every child of an emitted directory that is within
  the caps is emitted too, whatever happened to its siblings.
\<close>

theorem encoders_respect_depth_caps:
  assumes "0 \<le> fd" "fd < 2 ^ 31" "0 \<le> ld" "ld < 2 ^ 31"
  shows "to_repr t 0 (fd, ld) = Inr (concat (map repr_piece (kept_nodes fd ld 0 t)))
    \<and> to_md t 0 il pfx (fd, ld)
        = Inr (join [NL] (map md_line (md_entries pfx fd ld (t, 0, il, pfx))))
    \<and> map (\<lambda>e. (fst e, fst (snd e))) (md_entries pfx fd ld (t, 0, il, pfx))
        = kept_nodes fd ld 0 t
    \<and> (\<forall>(n, l) \<in> set (kept_nodes fd ld 0 t).
          (\<not> is_leaf n \<and> fd > 0 \<longrightarrow> l \<le> fd) \<and> (is_leaf n \<and> ld > 0 \<longrightarrow> l \<le> ld))
    \<and> (\<forall>(n, l) \<in> set (kept_nodes fd ld 0 t). \<forall>c \<in> set (children n).
          \<not> is_leaf n \<and> within_caps fd ld (l + 1) c \<longrightarrow>
            (c, l + 1) \<in> set (kept_nodes fd ld 0 t))"
proof -
  have root: "within_caps fd ld 0 t"
    using assms by (simp add: within_caps_def)
  have a: "to_repr t 0 (fd, ld) = Inr (concat (map repr_piece (kept_nodes fd ld 0 t)))"
    using assms by (simp add: to_repr_def c_int_def to_repr_loop_kept)
  have b: "to_md t 0 il pfx (fd, ld)
        = Inr (join [NL] (map md_line (md_entries pfx fd ld (t, 0, il, pfx))))"
    using assms by (simp add: to_md_def c_int_def to_md_loop_lines)
  have c: "map (\<lambda>e. (fst e, fst (snd e))) (md_entries pfx fd ld (t, 0, il, pfx))
        = kept_nodes fd ld 0 t"
    by (rule md_entries_kept [OF root])
  have d: "\<forall>(n, l) \<in> set (kept_nodes fd ld 0 t).
          (\<not> is_leaf n \<and> fd > 0 \<longrightarrow> l \<le> fd) \<and> (is_leaf n \<and> ld > 0 \<longrightarrow> l \<le> ld)"
    using kept_nodes_caps [of _ _ fd ld 0 t] by (fastforce simp: within_caps_def)
  have e: "\<forall>(n, l) \<in> set (kept_nodes fd ld 0 t). \<forall>c \<in> set (children n).
          \<not> is_leaf n \<and> within_caps fd ld (l + 1) c \<longrightarrow>
            (c, l + 1) \<in> set (kept_nodes fd ld 0 t)"
    using kept_children [of _ _ fd ld 0 t] by blast
  show ?thesis using a b c d e by blast
qed

lemmas sample = leaf_def dir_def example_tree_def

lemma replicate_numeral: "replicate (numeral k) x = x # replicate (pred_numeral k) x"
  by (simp add: numeral_eq_Suc)

theorem encoders_respect_depth_caps_witness:
  "to_repr example_tree 0 (1, 1) = Inr (u ''root/'' @ [NL] @ u ''    |-- a/'' @ [NL] @ u ''    |-- c.txt'')
   \<and> to_md example_tree 0 False [] (1, 1)
       = Inr (u ''root/'' @ [NL] @ MID_CONNECTOR @ u ''a/'' @ [NL] @ LAST_CONNECTOR @ u ''c.txt'')"
proof -
  have k: "kept_nodes 1 1 0 example_tree
      = [(example_tree, 0), (dir ''a'' [leaf ''b.txt''], 1), (leaf ''c.txt'', 1)]"
    by (simp add: kept_nodes.simps within_caps_def sample)
  have m: "md_entries [] 1 1 (example_tree, 0, False, [])
      = [(example_tree, 0, False, []), (dir ''a'' [leaf ''b.txt''], 1, False, []),
         (leaf ''c.txt'', 1, True, [])]"
    by (simp add: md_entries.simps md_children_def md_next_stack_def md_push_def md_valid_def
        push_each_def sample)
  have r: "concat (map repr_piece
        [(example_tree, 0), (dir ''a'' [leaf ''b.txt''], 1), (leaf ''c.txt'', 1)])
      = u ''root/'' @ [NL] @ u ''    |-- a/'' @ [NL] @ u ''    |-- c.txt''"
    by (simp add: repr_piece_def indent_of_def sample chars replicate_numeral)
  have d: "join [NL] (map md_line
        [(example_tree, 0, False, []), (dir ''a'' [leaf ''b.txt''], 1, False, []),
         (leaf ''c.txt'', 1, True, [])])
      = u ''root/'' @ [NL] @ MID_CONNECTOR @ u ''a/'' @ [NL] @ LAST_CONNECTOR @ u ''c.txt''"
    by (simp add: md_line_def sample chars)
  have lo: "(0::int) \<le> 1" and hi: "(1::int) < 2 ^ 31" by simp_all
  from encoders_respect_depth_caps [OF lo hi lo hi, of example_tree False "[]"]
  show ?thesis
    unfolding k m r d by blast
qed

text \<open>
  With \<open>ld = 1\<close> the leaf \<open>f\<close> at level 1 is written by both encoders, although its
  level is not below \<open>ld\<close>.
\<close>

theorem leaf_at_file_depth_counterexample:
  "to_repr small_tree 0 (0, 1) = Inr (u ''root/'' @ [NL] @ u ''    |-- f'')
   \<and> to_md small_tree 0 False [] (0, 1) = Inr (u ''root/'' @ [NL] @ LAST_CONNECTOR @ u ''f'')
   \<and> (leaf ''f'', 1) \<in> set (kept_nodes 0 1 0 small_tree)
   \<and> is_leaf (leaf ''f'') \<and> (1 :: int) \<ge> 1"
  by (simp add: to_repr_def to_md_def c_int_def md_next_stack_def md_push_def md_valid_def push_each_def
      kept_nodes.simps within_caps_def small_tree_def sample indent_of_def chars
      replicate_numeral)

text \<open>
  A cap outside the range of a C integer is refused on entry by both encoders, and a
  negative cap by the test that opens their bodies.
\<close>

lemma encoders_reject_caps:
  "\<not> (c_int fd \<and> c_int ld) \<Longrightarrow>
     to_repr t 0 (fd, ld) = Inl OverflowError \<and> to_md t 0 il pfx (fd, ld) = Inl OverflowError"
  "c_int fd \<Longrightarrow> c_int ld \<Longrightarrow> fd < 0 \<or> ld < 0 \<Longrightarrow>
     to_repr t 0 (fd, ld) = Inl (ValueError (u ''Depth values cannot be negative''))
     \<and> to_md t 0 il pfx (fd, ld) = Inl (ValueError (u ''Depth values must be non-negative''))"
  by (auto simp: to_repr_def to_md_def c_int_def)

section \<open>Lemmas about references\<close>

lemmas str_eval = strip_def lstrip_def rstrip_def isspace_def islinebreak_def splitlines_def
  startswith_def endswith_def

lemmas tree_eval = TreeNode_init_def add_child_def attach_def pop_to.simps push_each_def Let_def

lemmas path_eval = normpath_def split_def path_join_def basename_def

lemma add_child_with_child:
  "can_adopt n c \<Longrightarrow> add_child n c = Inr (with_child n c)"
  by (auto simp: add_child_def with_child_def can_adopt_def Let_def)

lemma add_child_Inr:
  "add_child n c = Inr n' \<Longrightarrow> n' = with_child n c \<and> can_adopt n c"
  by (auto simp: add_child_def with_child_def can_adopt_def Let_def split: if_splits option.splits)

lemma add_child_at_Inr:
  "add_child_at t p c = Inr t' \<Longrightarrow>
     \<exists>n. node_at t p = Some n \<and> can_adopt n c \<and> t' = map_at (\<lambda>n. with_child n c) p t"
proof (induction p arbitrary: t t')
  case Nil
  then show ?case using add_child_Inr by auto
next
  case (Cons i p)
  then show ?case by (auto split: if_splits sum.splits)
qed

lemma add_child_at_ok:
  "node_at t p = Some n \<Longrightarrow> can_adopt n c \<Longrightarrow>
     add_child_at t p c = Inr (map_at (\<lambda>n. with_child n c) p t)"
proof (induction p arbitrary: t)
  case Nil
  then show ?case by (simp add: add_child_with_child)
next
  case (Cons i p)
  then show ?case by (auto split: if_splits)
qed

lemma attach_Inr:
  "attach t p c = Inr (t', r) \<Longrightarrow>
     \<exists>n. node_at t p = Some n \<and> can_adopt n c \<and> t' = map_at (\<lambda>n. with_child n c) p t
        \<and> r = p @ [length (children n)]"
  by (auto simp: attach_def split: option.splits sum.splits dest!: add_child_at_Inr)

lemma attach_ok:
  "node_at t p = Some n \<Longrightarrow> can_adopt n c \<Longrightarrow>
     attach t p c = Inr (map_at (\<lambda>n. with_child n c) p t, p @ [length (children n)])"
  by (simp add: attach_def add_child_at_ok)

lemma node_at_append:
  "node_at t (p @ q) = (case node_at t p of None \<Rightarrow> None | Some n \<Rightarrow> node_at n q)"
  by (induction p arbitrary: t) auto

lemma map_at_append: "map_at f (p @ q) t = map_at (map_at f q) p t"
  by (induction p arbitrary: t) auto

lemma node_at_map_at:
  "node_at t p = Some n \<Longrightarrow> node_at (map_at f p t) p = Some (f n)"
  by (induction p arbitrary: t) (auto split: if_splits)

lemma map_at_cong_at:
  "node_at t p = Some n \<Longrightarrow> f n = g n \<Longrightarrow> map_at f p t = map_at g p t"
  by (induction p arbitrary: t) (auto split: if_splits)

lemma map_at_map_at:
  "map_at f p (map_at g p t) = map_at (\<lambda>n. f (g n)) p t"
  by (induction p arbitrary: t) auto

lemma map_at_invalid: "node_at t p = None \<Longrightarrow> map_at f p t = t"
proof (induction p arbitrary: t)
  case Nil
  then show ?case by simp
next
  case (Cons i p)
  then show ?case by (cases t) (auto split: if_splits simp: list_update_same_conv)
qed

lemma with_child_then_fill:
  assumes "name (h c) = name c" "is_leaf (h c) = is_leaf c"
  shows "map_at h [length (children n)] (with_child n c) = with_child n (h c)"
  using assms by (simp add: with_child_def)

lemma with_child_sel [simp]:
  "name (with_child n c) = name n" "is_leaf (with_child n c) = is_leaf n"
  "children (with_child n c) = children n @ [c]"
  by (auto simp: with_child_def)

lemma with_child_names:
  "non_leaf_names n \<noteq> None \<Longrightarrow> non_leaf_names (with_child n c) \<noteq> None"
  by (auto simp: with_child_def)

section \<open>The name-set invariant\<close>

lemma names_inv_sel:
  "names_inv t \<longleftrightarrow>
     (\<not> is_leaf t \<longrightarrow>
        non_leaf_names t = Some (set (map name (filter (\<lambda>c. \<not> is_leaf c) (children t)))))
     \<and> (\<forall>c \<in> set (children t). names_inv c)"
  by (cases t) simp

lemma names_inv_init: "names_inv (TreeNode_init nm lf)"
  by (simp add: TreeNode_init_def)

lemma names_inv_with_child:
  "names_inv n \<Longrightarrow> names_inv c \<Longrightarrow> names_inv (with_child n c)"
  by (cases n) (auto simp: with_child_def)

lemma map_at_name: "name (map_at (\<lambda>n. with_child n c) p t) = name t"
  by (cases p) (simp_all add: with_child_def)

lemma map_at_is_leaf: "is_leaf (map_at (\<lambda>n. with_child n c) p t) = is_leaf t"
  by (cases p) (simp_all add: with_child_def)

lemma dir_names_update:
  assumes "i < length cs" "name c' = name (cs ! i)" "is_leaf c' = is_leaf (cs ! i)"
  shows "map name (filter (\<lambda>c. \<not> is_leaf c) (cs[i := c']))
           = map name (filter (\<lambda>c. \<not> is_leaf c) cs)"
proof -
  have "map (\<lambda>c. (name c, is_leaf c)) (cs[i := c']) = map (\<lambda>c. (name c, is_leaf c)) cs"
    using assms by (simp add: map_update list_update_same_conv)
  moreover have "map name (filter (\<lambda>c. \<not> is_leaf c) xs)
      = map fst (filter (\<lambda>x. \<not> snd x) (map (\<lambda>c. (name c, is_leaf c)) xs))" for xs
    by (induction xs) simp_all
  ultimately show ?thesis by simp
qed

lemma names_inv_map_at:
  "names_inv t \<Longrightarrow> names_inv c \<Longrightarrow> names_inv (map_at (\<lambda>n. with_child n c) p t)"
proof (induction p arbitrary: t)
  case Nil
  then show ?case by (simp add: names_inv_with_child)
next
  case (Cons i p)
  show ?case
  proof (cases "i < length (children t)")
    case False
    then show ?thesis using Cons.prems by simp
  next
    case True
    let ?c' = "map_at (\<lambda>n. with_child n c) p (children t ! i)"
    have sub: "names_inv ?c'"
      using Cons.IH [of "children t ! i"] Cons.prems True by (simp add: names_inv_sel [of t])
    have "map name (filter (\<lambda>c. \<not> is_leaf c) ((children t)[i := ?c']))
        = map name (filter (\<lambda>c. \<not> is_leaf c) (children t))"
      by (rule dir_names_update [OF True]) (simp_all add: map_at_name map_at_is_leaf)
    moreover have "\<forall>x \<in> set ((children t)[i := ?c']). names_inv x"
      using sub Cons.prems(1) by (auto simp: names_inv_sel [of t] dest!: set_update_subset_insert [THEN subsetD])
    ultimately show ?thesis
      using True Cons.prems(1) by (simp add: names_inv_sel [of t])
  qed
qed

lemma names_inv_attach:
  "attach t p c = Inr (t', r) \<Longrightarrow> names_inv t \<Longrightarrow> names_inv c \<Longrightarrow> names_inv t'"
  by (auto dest!: attach_Inr simp: names_inv_map_at)

lemma names_inv_from_repr_line:
  "from_repr_line (t, st) line = Inr (t', st') \<Longrightarrow> names_inv t \<Longrightarrow> names_inv t'"
  by (auto simp: from_repr_line_def Let_def names_inv_init
      split: list.splits sum.splits dest: names_inv_attach)

lemma names_inv_from_repr_lines:
  "from_repr_lines (t, st) ls = Inr (t', st') \<Longrightarrow> names_inv t \<Longrightarrow> names_inv t'"
proof (induction ls arbitrary: t st)
  case Nil
  then show ?case by simp
next
  case (Cons l ls)
  then show ?case
    by (auto split: sum.splits dest: names_inv_from_repr_line)
qed

lemma names_inv_from_repr: "from_repr s = Inr (Some t) \<Longrightarrow> names_inv t"
  by (auto simp: from_repr_def Let_def split: list.splits sum.splits
      dest!: names_inv_from_repr_lines simp: names_inv_init)

lemma names_inv_from_md_line:
  "from_md_line (t, st) line = Inr (t', st') \<Longrightarrow> names_inv t \<Longrightarrow> names_inv t'"
  by (auto simp: from_md_line_def Let_def names_inv_init
      split: list.splits sum.splits dest: names_inv_attach)

lemma names_inv_from_md_lines:
  "from_md_lines (t, st) ls = Inr (t', st') \<Longrightarrow> names_inv t \<Longrightarrow> names_inv t'"
proof (induction ls arbitrary: t st)
  case Nil
  then show ?case by simp
next
  case (Cons l ls)
  then show ?case
    by (auto split: sum.splits dest: names_inv_from_md_line)
qed

lemma names_inv_from_md: "from_md s = Inr (Some t) \<Longrightarrow> names_inv t"
  by (auto simp: from_md_def Let_def split: list.splits sum.splits
      dest!: names_inv_from_md_lines simp: names_inv_init)

lemma names_inv_from_dict_loop:
  "from_dict_loop stack root = Inr (Some t) \<Longrightarrow> (\<forall>r. root = Some r \<longrightarrow> names_inv r) \<Longrightarrow>
   names_inv t"
proof (induction stack root rule: from_dict_loop.induct)
  case (1 root)
  then show ?case by simp
next
  case (2 pn stack root)
  then show ?case by simp
next
  case (3 pn nm v more stack root)
  from "3.prems"(1) obtain root1 cref where
    att: "(case pn of None \<Rightarrow> Inr (TreeNode_init nm (v = PNone), [])
           | Some p \<Rightarrow> (case root of None \<Rightarrow> Inl Dangling
                        | Some r \<Rightarrow> attach r p (TreeNode_init nm (v = PNone)))) = Inr (root1, cref)"
    and rest: "from_dict_loop
         (if \<not> (v = PNone) then
            push_each (map (\<lambda>(child_name, child_dict). (Some cref, [(child_name, child_dict)]))
                         (rev (items_of v))) stack
          else stack) (Some root1) = Inr (Some t)"
    by (auto simp: Let_def split: sum.splits)
  have "names_inv root1"
    using att "3.prems"(2)
    by (auto split: option.splits dest: names_inv_attach simp: names_inv_init)
  with "3.IH" [OF refl refl att refl] rest show ?case by simp
qed

lemma names_inv_from_dict: "from_dict d = Inr (Some t) \<Longrightarrow> names_inv t"
  by (auto simp: from_dict_def dest: names_inv_from_dict_loop)

lemma names_inv_build_items:
  "build_items os ign rp cp cn items (t, st) = Inr (t', st') \<Longrightarrow> names_inv t \<Longrightarrow> names_inv t'"
proof (induction items arbitrary: t st)
  case Nil
  then show ?case by simp
next
  case (Cons item items)
  then show ?case
    by (auto simp: Let_def names_inv_init split: if_splits sum.splits dest: names_inv_attach)
qed

lemma names_inv_build_tree_loop:
  "build_tree_loop fuel os ign rp st t = Some (Inr t') \<Longrightarrow> names_inv t \<Longrightarrow> names_inv t'"
proof (induction fuel arbitrary: st t)
  case 0
  then show ?case by simp
next
  case (Suc fuel)
  show ?case
  proof (cases st)
    case Nil
    then show ?thesis using Suc.prems by simp
  next
    case (Cons e rest)
    obtain cn cp where e: "e = (cn, cp)" by (cases e) auto
    show ?thesis
    proof (cases "os_listdir os cp")
      case (Inl err)
      then show ?thesis using Suc Cons e by (cases err) auto
    next
      case (Inr items)
      then obtain t1 st1 where
        items: "build_items os ign rp cp cn items (t, rest) = Inr (t1, st1)"
        and loop: "build_tree_loop fuel os ign rp st1 t1 = Some (Inr t')"
        using Suc.prems(1) Cons e by (auto split: sum.splits)
      from names_inv_build_items [OF items Suc.prems(2)] Suc.IH [OF loop]
      show ?thesis by simp
    qed
  qed
qed

lemma names_inv_build_items_with_depth:
  "build_items_with_depth os ign fd ld rp cp cn d items (t, st) = Inr (t', st') \<Longrightarrow>
   names_inv t \<Longrightarrow> names_inv t'"
proof (induction items arbitrary: t st)
  case Nil
  then show ?case by simp
next
  case (Cons item items)
  then show ?case
    by (auto simp: Let_def names_inv_init split: if_splits sum.splits dest: names_inv_attach)
qed

lemma names_inv_build_tree_with_depth_loop:
  "build_tree_with_depth_loop fuel os ign fd ld rp st t = Some (Inr t') \<Longrightarrow> names_inv t \<Longrightarrow>
   names_inv t'"
proof (induction fuel arbitrary: st t)
  case 0
  then show ?case by simp
next
  case (Suc fuel)
  show ?case
  proof (cases st)
    case Nil
    then show ?thesis using Suc.prems by simp
  next
    case (Cons e rest)
    obtain cn cp d where e: "e = (cn, cp, d)" by (cases e) auto
    show ?thesis
    proof (cases "fd \<noteq> 0 \<and> d > fd")
      case True
      then show ?thesis using Suc Cons e by simp
    next
      case False
      show ?thesis
      proof (cases "os_listdir os cp")
        case (Inl err)
        then show ?thesis using Suc Cons e False by (cases err) auto
      next
        case (Inr items)
        then obtain t1 st1 where
          items: "build_items_with_depth os ign fd ld rp cp cn d items (t, rest) = Inr (t1, st1)"
          and loop: "build_tree_with_depth_loop fuel os ign fd ld rp st1 t1 = Some (Inr t')"
          using Suc.prems(1) Cons e False by (auto split: sum.splits)
        from names_inv_build_items_with_depth [OF items Suc.prems(2)] Suc.IH [OF loop]
        show ?thesis by simp
      qed
    qed
  qed
qed

lemma names_inv_child: "names_inv t \<Longrightarrow> i < length (children t) \<Longrightarrow> names_inv (children t ! i)"
  by (simp add: names_inv_sel [of t])

lemma names_inv_navigate:
  "navigate rel t q = Inr t' \<Longrightarrow> names_inv t \<Longrightarrow> names_inv t'"
proof (induction q arbitrary: t)
  case Nil
  then show ?case by simp
next
  case (Cons part q)
  then show ?case
    by (auto simp: Let_def split: if_splits dest: names_inv_child)
qed

lemma names_inv_FileTree_init:
  "FileTree_init fuel os path ign = Some (Inr ft) \<Longrightarrow>
     \<exists>t. root_node ft = Some t \<and> names_inv t"
  by (auto simp: FileTree_init_def build_tree_def split: if_splits option.splits sum.splits
      dest!: names_inv_build_tree_loop simp: names_inv_init)

lemma names_inv_TrimmedTree:
  "TrimmedTree fuel os path depth ign = Some (Inr ft) \<Longrightarrow>
     \<exists>t. root_node ft = Some t \<and> names_inv t"
  by (auto simp: TrimmedTree_def build_tree_with_depth_def
      split: if_splits option.splits sum.splits prod.splits
      dest!: names_inv_build_tree_with_depth_loop simp: names_inv_init)

lemma names_inv_FileTree_from_md:
  "FileTree_from_md fuel os s = Some (Inr (Some ft)) \<Longrightarrow>
     \<exists>t. root_node ft = Some t \<and> names_inv t"
  by (auto simp: FileTree_from_md_def Let_def
      split: if_splits option.splits sum.splits prod.splits
      dest!: names_inv_from_md)

lemma names_inv_create_subtree:
  "FileTree_create_subtree fuel os ft rel = Some (Inr ft') \<Longrightarrow> root_node ft = Some r \<Longrightarrow>
   names_inv r \<Longrightarrow> \<exists>t. root_node ft' = Some t \<and> names_inv t"
  by (auto simp: FileTree_create_subtree_def
      split: if_splits option.splits sum.splits
      dest!: names_inv_navigate)

text \<open>
  C10. A new node satisfies the invariant, \<open>add_child\<close> preserves it, and so every
  tree the decoders (\<open>from_repr\<close>, \<open>from_md\<close>, \<open>from_dict\<close>, \<open>FileTree.from_md\<close>), the
  builders (\<open>_build_tree\<close>, \<open>_build_tree_with_depth\<close>, \<open>FileTree\<close>, \<open>TrimmedTree\<close>)
  and subtree extraction return satisfies it: in each of its directories
  \<open>non_leaf_names\<close> is exactly the set of the names of the non-leaf children.
\<close>

theorem non_leaf_names_invariant:
  "names_inv (TreeNode_init nm lf)
   \<and> (names_inv parent \<and> names_inv node \<and> add_child parent node = Inr parent' \<longrightarrow>
        names_inv parent')
   \<and> (from_repr listing = Inr (Some ta) \<longrightarrow> names_inv ta)
   \<and> (from_md diagram = Inr (Some tb) \<longrightarrow> names_inv tb)
   \<and> (from_dict mapping = Inr (Some tc) \<longrightarrow> names_inv tc)
   \<and> (build_tree fuel os (TreeNode_init nm False) path ign = Some (Inr td) \<longrightarrow> names_inv td)
   \<and> (build_tree_with_depth fuel os (TreeNode_init nm False) path depth ign = Some (Inr te) \<longrightarrow>
        names_inv te)
   \<and> (FileTree_init fuel os path ign = Some (Inr fa) \<longrightarrow>
        (\<exists>t. root_node fa = Some t \<and> names_inv t))
   \<and> (TrimmedTree fuel os path depth ign = Some (Inr fb) \<longrightarrow>
        (\<exists>t. root_node fb = Some t \<and> names_inv t))
   \<and> (FileTree_from_md fuel os document = Some (Inr (Some fc)) \<longrightarrow>
        (\<exists>t. root_node fc = Some t \<and> names_inv t))
   \<and> (root_node ft = Some r \<and> names_inv r
        \<and> FileTree_create_subtree fuel os ft rel = Some (Inr fd) \<longrightarrow>
        (\<exists>t. root_node fd = Some t \<and> names_inv t))"
proof -
  have a: "names_inv parent \<and> names_inv node \<and> add_child parent node = Inr parent' \<longrightarrow>
        names_inv parent'"
    by (auto dest!: add_child_Inr simp: names_inv_with_child)
  have b: "build_tree fuel os (TreeNode_init nm False) path ign = Some (Inr td) \<longrightarrow> names_inv td"
    by (auto simp: build_tree_def dest!: names_inv_build_tree_loop simp: names_inv_init)
  have c: "build_tree_with_depth fuel os (TreeNode_init nm False) path depth ign = Some (Inr te)
      \<longrightarrow> names_inv te"
    by (auto simp: build_tree_with_depth_def split: prod.splits
        dest!: names_inv_build_tree_with_depth_loop simp: names_inv_init)
  show ?thesis
    using a b c
    by (intro conjI impI names_inv_init)
       (auto intro: names_inv_from_repr names_inv_from_md names_inv_from_dict
          names_inv_FileTree_init names_inv_TrimmedTree names_inv_FileTree_from_md
          names_inv_create_subtree)
qed

theorem non_leaf_names_invariant_witness:
  "add_child (dir ''root'' []) (dir ''a'' []) = Inr (dir ''root'' [dir ''a'' []])
   \<and> names_inv (dir ''root'' [dir ''a'' []])
   \<and> from_repr example_listing = Inr (Some (dir ''root'' [dir ''a'' [leaf ''b.txt'']]))
   \<and> names_inv (dir ''root'' [dir ''a'' [leaf ''b.txt'']])
   \<and> from_md example_diagram = Inr (Some example_tree)
   \<and> from_dict example_dict = Inr (Some example_tree)
   \<and> build_tree 3 example_os (TreeNode_init (u ''root'') False) (u ''root'') None
       = Some (Inr example_tree)
   \<and> names_inv example_tree
   \<and> FileTree_create_subtree 3 example_os
        \<lparr>root_path = u ''root'', root_node = Some example_tree\<rparr> (u ''a'')
       = Some (Inr \<lparr>root_path = u ''root/a'', root_node = Some (dir ''a'' [leaf ''b.txt''])\<rparr>)
   \<and> names_inv (dir ''a'' [leaf ''b.txt''])"
proof -
  have i0: "names_inv (dir ''root'' [])" "names_inv (dir ''a'' [])"
    by (simp_all add: sample)
  have e0: "add_child (dir ''root'' []) (dir ''a'' []) = Inr (dir ''root'' [dir ''a'' []])"
    by (simp add: tree_eval sample chars)
  have e1: "from_repr example_listing = Inr (Some (dir ''root'' [dir ''a'' [leaf ''b.txt'']]))"
    by (simp add: example_listing_def from_repr_def from_repr_line_def str_eval tree_eval chars
        sample)
  have e2: "from_md example_diagram = Inr (Some example_tree)"
    by (simp add: example_diagram_def from_md_def from_md_line_def str_eval tree_eval chars
        sample MID_CONNECTOR_def LAST_CONNECTOR_def BAR_CONT_def)
  have e3: "from_dict example_dict = Inr (Some example_tree)"
    by (simp add: example_dict_def from_dict_def tree_eval items_of_def chars sample)
  have e4: "build_tree 3 example_os (TreeNode_init (u ''root'') False) (u ''root'') None
     = Some (Inr example_tree)"
    by (simp add: build_tree_def example_os_def numeral_3_eq_3 path_eval should_ignore_def
        str_eval tree_eval chars sample)
  have e5: "FileTree_create_subtree 3 example_os
        \<lparr>root_path = u ''root'', root_node = Some example_tree\<rparr> (u ''a'')
       = Some (Inr \<lparr>root_path = u ''root/a'', root_node = Some (dir ''a'' [leaf ''b.txt''])\<rparr>)"
    by (simp add: FileTree_create_subtree_def path_eval bisect_left_def bisect_loop.simps
        FileTree_init_def build_tree_def example_os_def numeral_3_eq_3
        should_ignore_def str_eval tree_eval chars sample)
  note inst = non_leaf_names_invariant [where parent = "dir ''root'' []" and node = "dir ''a'' []"
      and parent' = "dir ''root'' [dir ''a'' []]" and listing = example_listing
      and ta = "dir ''root'' [dir ''a'' [leaf ''b.txt'']]" and diagram = example_diagram
      and tb = example_tree and mapping = example_dict and tc = example_tree
      and fuel = 3 and os = example_os and nm = "u ''root''" and path = "u ''root''"
      and ign = None and td = example_tree
      and ft = "\<lparr>root_path = u ''root'', root_node = Some example_tree\<rparr>"
      and r = example_tree and rel = "u ''a''"
      and fd = "\<lparr>root_path = u ''root/a'', root_node = Some (dir ''a'' [leaf ''b.txt''])\<rparr>"]
  from inst i0 e0 have w0: "names_inv (dir ''root'' [dir ''a'' []])" by blast
  from inst e1 have w1: "names_inv (dir ''root'' [dir ''a'' [leaf ''b.txt'']])" by blast
  from inst e4 have w4: "names_inv example_tree" by blast
  from inst e5 w4 have w5: "names_inv (dir ''a'' [leaf ''b.txt''])" by auto
  show ?thesis using e0 e1 e2 e3 e4 e5 w0 w1 w4 w5 by simp
qed

section \<open>The depth-bounded builder\<close>



lemma depth_ok_init:
  "(if lf then ld > 0 \<longrightarrow> lvl \<le> ld else fd > 0 \<longrightarrow> lvl \<le> fd) \<Longrightarrow>
   depth_ok fd ld lvl (TreeNode_init nm lf)"
  by (simp add: TreeNode_init_def)










section \<open>Binary search\<close>

lemma sorted_tree_sel:
  "sorted_tree t \<longleftrightarrow> sorted (map name (children t)) \<and> (\<forall>c \<in> set (children t). sorted_tree c)"
  by (cases t) simp

lemma bisect_loop_bounds:
  "lo \<le> hi \<Longrightarrow> hi \<le> length a \<Longrightarrow>
   lo \<le> bisect_loop a x lo hi \<and> bisect_loop a x lo hi \<le> hi"
proof (induction a x lo hi rule: bisect_loop.induct)
  case (1 a x lo hi)
  show ?case
  proof (cases "lo < hi")
    case False
    then show ?thesis using "1.prems" by (subst bisect_loop.simps, subst bisect_loop.simps) simp
  next
    case True
    let ?mid = "(lo + hi) div 2"
    have m: "lo \<le> ?mid" "?mid < hi" using True by auto
    show ?thesis
    proof (cases "name (a ! ?mid) < name x")
      case lt: True
      have "?mid + 1 \<le> bisect_loop a x (?mid + 1) hi \<and> bisect_loop a x (?mid + 1) hi \<le> hi"
        using "1.IH"(1) [OF True refl lt] m "1.prems" by simp
      moreover have "bisect_loop a x lo hi = bisect_loop a x (?mid + 1) hi"
        using True lt by (subst bisect_loop.simps) (simp add: Let_def)
      ultimately show ?thesis using m by simp
    next
      case ge: False
      have "lo \<le> bisect_loop a x lo ?mid \<and> bisect_loop a x lo ?mid \<le> ?mid"
        using "1.IH"(2) [OF True refl ge] m "1.prems" by simp
      moreover have "bisect_loop a x lo hi = bisect_loop a x lo ?mid"
        using True ge by (subst bisect_loop.simps) (simp add: Let_def)
      ultimately show ?thesis using m by simp
    qed
  qed
qed

lemma bisect_loop_sorted:
  "sorted (map name a) \<Longrightarrow> lo \<le> hi \<Longrightarrow> hi \<le> length a \<Longrightarrow>
     \<forall>j < lo. name (a ! j) < name x \<Longrightarrow>
     \<forall>j. hi \<le> j \<and> j < length a \<longrightarrow> \<not> name (a ! j) < name x \<Longrightarrow>
     (\<forall>j < bisect_loop a x lo hi. name (a ! j) < name x)
     \<and> (\<forall>j. bisect_loop a x lo hi \<le> j \<and> j < length a \<longrightarrow> \<not> name (a ! j) < name x)"
proof (induction a x lo hi rule: bisect_loop.induct)
  case (1 a x lo hi)
  have srt: "i \<le> j \<Longrightarrow> j < length a \<Longrightarrow> name (a ! i) \<le> name (a ! j)" for i j
    using sorted_nth_mono [OF "1.prems"(1), of i j] by simp
  show ?case
  proof (cases "lo < hi")
    case False
    then have "bisect_loop a x lo hi = lo" by (subst bisect_loop.simps) simp
    moreover have "lo = hi" using False "1.prems"(2) by simp
    ultimately show ?thesis using "1.prems" by simp
  next
    case True
    let ?mid = "(lo + hi) div 2"
    have m: "lo \<le> ?mid" "?mid < hi" using True by auto
    show ?thesis
    proof (cases "name (a ! ?mid) < name x")
      case lt: True
      have below: "\<forall>j < ?mid + 1. name (a ! j) < name x"
      proof (intro allI impI)
        fix j assume "j < ?mid + 1"
        then have "name (a ! j) \<le> name (a ! ?mid)"
          using srt [of j ?mid] m "1.prems"(3) by simp
        then show "name (a ! j) < name x" using lt by simp
      qed
      have eq: "bisect_loop a x lo hi = bisect_loop a x (?mid + 1) hi"
        using True lt by (subst bisect_loop.simps) (simp add: Let_def)
      show ?thesis
        unfolding eq
        using "1.IH"(1) [OF True refl lt "1.prems"(1) _ "1.prems"(3) below "1.prems"(5)] m by simp
    next
      case ge: False
      have above: "\<forall>j. ?mid \<le> j \<and> j < length a \<longrightarrow> \<not> name (a ! j) < name x"
      proof (intro allI impI)
        fix j assume "?mid \<le> j \<and> j < length a"
        then have "name (a ! ?mid) \<le> name (a ! j)"
          using srt [of ?mid j] by simp
        then show "\<not> name (a ! j) < name x" using ge by auto
      qed
      have eq: "bisect_loop a x lo hi = bisect_loop a x lo ?mid"
        using True ge by (subst bisect_loop.simps) (simp add: Let_def)
      show ?thesis
        unfolding eq
        using "1.IH"(2) [OF True refl ge "1.prems"(1) _ _ "1.prems"(4) above] m "1.prems"(3) by simp
    qed
  qed
qed

lemma bisect_left_sorted:
  assumes "sorted (map name a)"
  shows "bisect_left a x \<le> length a"
    and "\<forall>j < bisect_left a x. name (a ! j) < name x"
    and "\<forall>j. bisect_left a x \<le> j \<and> j < length a \<longrightarrow> \<not> name (a ! j) < name x"
proof -
  show "bisect_left a x \<le> length a"
    unfolding bisect_left_def using bisect_loop_bounds [of 0 "length a" a x] by blast
  have "(\<forall>j < bisect_loop a x 0 (length a). name (a ! j) < name x)
     \<and> (\<forall>j. bisect_loop a x 0 (length a) \<le> j \<and> j < length a \<longrightarrow> \<not> name (a ! j) < name x)"
    by (rule bisect_loop_sorted [OF assms]) auto
  then show "\<forall>j < bisect_left a x. name (a ! j) < name x"
    and "\<forall>j. bisect_left a x \<le> j \<and> j < length a \<longrightarrow> \<not> name (a ! j) < name x"
    unfolding bisect_left_def by blast+
qed

lemma find_first_index:
  assumes "i < length xs" "P (xs ! i)" "\<forall>j < i. \<not> P (xs ! j)"
  shows "find P xs = Some (xs ! i)"
  using assms
proof (induction xs arbitrary: i)
  case Nil
  then show ?case by simp
next
  case (Cons x xs)
  show ?case
  proof (cases i)
    case 0
    then show ?thesis using Cons.prems by simp
  next
    case (Suc k)
    then have "\<not> P x" using Cons.prems(3) by auto
    moreover have "\<forall>j < k. \<not> P (xs ! j)"
    proof (intro allI impI)
      fix j assume "j < k"
      then have "\<not> P ((x # xs) ! Suc j)" using Cons.prems(3) Suc by blast
      then show "\<not> P (xs ! j)" by simp
    qed
    then have "find P xs = Some (xs ! k)"
      using Cons.IH [of k] Cons.prems(1,2) Suc by simp
    ultimately show ?thesis using Suc by simp
  qed
qed

lemma bisect_left_find:
  assumes "sorted (map name a)"
  shows "(let i = bisect_left a (TreeNode_init part lf)
          in if i < length a \<and> name (a ! i) = part then Some (a ! i) else None)
         = find (\<lambda>c. name c = part) a"
proof -
  let ?x = "TreeNode_init part lf"
  let ?i = "bisect_left a ?x"
  have nx: "name ?x = part" by (simp add: TreeNode_init_def)
  note b = bisect_left_sorted [OF assms, of ?x, unfolded nx]
  show ?thesis
  proof (cases "?i < length a \<and> name (a ! ?i) = part")
    case True
    have "\<forall>j < ?i. \<not> name (a ! j) = part" using b(2) by auto
    then have "find (\<lambda>c. name c = part) a = Some (a ! ?i)"
      using True by (intro find_first_index) auto
    then show ?thesis using True by (simp add: Let_def)
  next
    case False
    have "\<not> (\<exists>c \<in> set a. name c = part)"
    proof
      assume "\<exists>c \<in> set a. name c = part"
      then obtain k where k: "k < length a" "name (a ! k) = part"
        by (auto simp: in_set_conv_nth)
      have "?i \<le> k" using b(2,3) k by (metis less_irrefl not_le_imp_less)
      then have "name (a ! ?i) \<le> name (a ! k)"
        using sorted_nth_mono [OF assms, of ?i k] k by simp
      moreover have "\<not> name (a ! ?i) < part" using b(3) \<open>?i \<le> k\<close> k by auto
      ultimately show False using False k \<open>?i \<le> k\<close> by auto
    qed
    then have "find (\<lambda>c. name c = part) a = None"
      by (simp add: find_None_iff)
    then show ?thesis using False by (simp add: Let_def)
  qed
qed

section \<open>Subtree extraction\<close>

lemma asc_Nil: "\<not> asc [] n"
  by (simp add: asc_def)

lemma dots_differ: "u ''.'' \<noteq> u ''..''"
  by (simp add: u_def)

lemma asc_Cons:
  "asc (p # ps) n \<longleftrightarrow>
     (if p = u ''.'' then asc ps n
      else if p = u ''..'' then n = 0 \<or> asc ps (n - 1)
      else asc ps (n + 1))"
proof -
  let ?U = "\<lambda>xs. length (filter (\<lambda>p. p = u ''..'') xs)"
  let ?N = "\<lambda>xs. length (filter (\<lambda>p. p \<noteq> u ''..'' \<and> p \<noteq> u ''.'') xs)"
  have split: "asc (p # ps) n \<longleftrightarrow> (\<exists>k \<le> length ps. ?U (p # take k ps) > n + ?N (p # take k ps))"
  proof
    assume "asc (p # ps) n"
    then obtain k where k: "k \<le> length (p # ps)" "?U (take k (p # ps)) > n + ?N (take k (p # ps))"
      unfolding asc_def by blast
    then obtain k' where "k = Suc k'" by (cases k) auto
    with k show "\<exists>k \<le> length ps. ?U (p # take k ps) > n + ?N (p # take k ps)"
      by (intro exI [of _ k']) simp
  next
    assume "\<exists>k \<le> length ps. ?U (p # take k ps) > n + ?N (p # take k ps)"
    then obtain k where "k \<le> length ps" "?U (p # take k ps) > n + ?N (p # take k ps)" by blast
    then show "asc (p # ps) n"
      unfolding asc_def by (intro exI [of _ "Suc k"]) simp
  qed
  show ?thesis
  proof (cases "p = u ''.''")
    case True
    then show ?thesis using dots_differ by (subst split) (simp add: asc_def)
  next
    case nd: False
    show ?thesis
    proof (cases "p = u ''..''")
      case True
      have "(\<exists>k \<le> length ps. Suc (?U (take k ps)) > n + ?N (take k ps))
          \<longleftrightarrow> n = 0 \<or> (\<exists>k \<le> length ps. ?U (take k ps) > n - 1 + ?N (take k ps))"
      proof (cases n)
        case 0
        then show ?thesis by (auto intro: exI [of _ 0])
      next
        case (Suc m)
        then show ?thesis by auto
      qed
      then show ?thesis using True nd by (subst split) (simp add: asc_def)
    next
      case False
      then show ?thesis using nd by (subst split) (simp add: asc_def)
    qed
  qed
qed

lemma resolve_parts_Inl:
  "resolve_parts parts q = Inl e \<longleftrightarrow> asc parts (length q) \<and> e = ValueError above_root_message"
proof (induction parts arbitrary: q)
  case Nil
  show ?case by (simp add: asc_Nil)
next
  case (Cons p ps)
  show ?case
  proof (cases "p = u ''.''")
    case True
    then show ?thesis using Cons.IH [of q] by (simp add: asc_Cons)
  next
    case nd: False
    show ?thesis
    proof (cases "p = u ''..''")
      case True
      show ?thesis
      proof (cases "q = []")
        case e: True
        then show ?thesis using True nd by (auto simp: asc_Cons above_root_message_def)
      next
        case False
        then show ?thesis using True nd Cons.IH [of "butlast q"] by (simp add: asc_Cons)
      qed
    next
      case False
      then show ?thesis using nd Cons.IH [of "q @ [p]"] by (simp add: asc_Cons)
    qed
  qed
qed

lemma ascends_above_asc: "ascends_above parts \<longleftrightarrow> asc parts 0"
  by (simp add: ascends_above_def asc_def)

lemma resolve_parts_ascends:
  "ascends_above parts \<Longrightarrow> resolve_parts parts [] = Inl (ValueError above_root_message)"
  using resolve_parts_Inl [of parts "[]"] by (simp add: ascends_above_asc)

lemma resolve_parts_ok:
  "\<not> ascends_above parts \<Longrightarrow> \<exists>q. resolve_parts parts [] = Inr q"
  using resolve_parts_Inl [of parts "[]"]
  by (cases "resolve_parts parts []") (auto simp: ascends_above_asc)

lemma navigate_missing:
  "\<not> has_path t q \<Longrightarrow>
   \<exists>part \<in> set q. navigate rel t q = Inl (ValueError (missing_message rel part))"
proof (induction q arbitrary: t)
  case Nil
  then show ?case by simp
next
  case (Cons p q)
  let ?i = "bisect_left (children t) (TreeNode_init p False)"
  show ?case
  proof (cases "?i < length (children t) \<and> name (children t ! ?i) = p")
    case False
    then show ?thesis by (auto simp: Let_def)
  next
    case True
    then have "\<not> has_path (children t ! ?i) q"
      using Cons.prems nth_mem [of ?i "children t"] by auto
    from Cons.IH [OF this] True show ?thesis by (auto simp: Let_def)
  qed
qed

lemma navigate_sorted:
  "sorted_tree t \<Longrightarrow>
   navigate rel t q =
     (case descend t q of
        Inl part \<Rightarrow> Inl (ValueError (missing_message rel part))
      | Inr found \<Rightarrow> Inr found)"
proof (induction q arbitrary: t)
  case Nil
  show ?case by simp
next
  case (Cons p q)
  have srt: "sorted (map name (children t))"
    using Cons.prems by (simp add: sorted_tree_sel [of t])
  note f = bisect_left_find [OF srt, of p False, unfolded Let_def]
  let ?i = "bisect_left (children t) (TreeNode_init p False)"
  show ?case
  proof (cases "?i < length (children t) \<and> name (children t ! ?i) = p")
    case False
    then have "find (\<lambda>c. name c = p) (children t) = None"
      using f by (simp split: if_splits)
    then show ?thesis using False by (auto simp: Let_def)
  next
    case True
    then have fnd: "find (\<lambda>c. name c = p) (children t) = Some (children t ! ?i)"
      using f by (simp split: if_splits)
    have "sorted_tree (children t ! ?i)"
      using Cons.prems True by (simp add: sorted_tree_sel [of t])
    from Cons.IH [OF this] True fnd show ?thesis by (simp add: Let_def)
  qed
qed

text \<open>
  C6, as amended. The relative path is normalised first (\<open>normpath\<close> drops \<open>.\<close> and
  cancels a name against a following \<open>..\<close>). If the components that remain ascend
  above the root, \<open>create_subtree\<close> raises \<open>ValueError\<close> ("Cannot navigate above the
  root directory."); otherwise they resolve to a queue of names, and if these names
  lead to no node of the tree it raises \<open>ValueError\<close> with a message that names one of
  them; on a tree whose children lists are sorted by name the name is the first one
  that is missing. In each case no subtree is returned and the file system is not
  touched.
\<close>

theorem create_subtree_errors:
  "(ascends_above (split (normpath rel) SLASH) \<longrightarrow>
      FileTree_create_subtree fuel os ft rel = Some (Inl (ValueError above_root_message)))
   \<and> (\<not> ascends_above (split (normpath rel) SLASH) \<longrightarrow>
        (\<exists>q. resolve_parts (split (normpath rel) SLASH) [] = Inr q))
   \<and> (root_node ft = Some root \<and> resolve_parts (split (normpath rel) SLASH) [] = Inr q
        \<and> \<not> has_path root q \<longrightarrow>
        (\<exists>part \<in> set q. FileTree_create_subtree fuel os ft rel
            = Some (Inl (ValueError (missing_message rel part)))))
   \<and> (root_node ft = Some root \<and> sorted_tree root
        \<and> resolve_parts (split (normpath rel) SLASH) [] = Inr q \<and> descend root q = Inl part \<longrightarrow>
        FileTree_create_subtree fuel os ft rel
          = Some (Inl (ValueError (missing_message rel part))))"
proof -
  have a: "ascends_above (split (normpath rel) SLASH) \<longrightarrow>
      FileTree_create_subtree fuel os ft rel = Some (Inl (ValueError above_root_message))"
    by (auto simp: FileTree_create_subtree_def dest!: resolve_parts_ascends)
  have b: "\<not> ascends_above (split (normpath rel) SLASH) \<longrightarrow>
        (\<exists>q. resolve_parts (split (normpath rel) SLASH) [] = Inr q)"
    using resolve_parts_ok by blast
  have c: "root_node ft = Some root \<and> resolve_parts (split (normpath rel) SLASH) [] = Inr q
        \<and> \<not> has_path root q \<longrightarrow>
        (\<exists>part \<in> set q. FileTree_create_subtree fuel os ft rel
            = Some (Inl (ValueError (missing_message rel part))))"
  proof (intro impI, elim conjE)
    assume r: "root_node ft = Some root" "resolve_parts (split (normpath rel) SLASH) [] = Inr q"
      and "\<not> has_path root q"
    from navigate_missing [OF this(3), of rel] obtain part' where
      "part' \<in> set q" "navigate rel root q = Inl (ValueError (missing_message rel part'))"
      by blast
    then show "\<exists>part \<in> set q. FileTree_create_subtree fuel os ft rel
            = Some (Inl (ValueError (missing_message rel part)))"
      using r by (intro bexI [of _ part']) (simp_all add: FileTree_create_subtree_def)
  qed
  have d: "root_node ft = Some root \<and> sorted_tree root
        \<and> resolve_parts (split (normpath rel) SLASH) [] = Inr q \<and> descend root q = Inl part \<longrightarrow>
        FileTree_create_subtree fuel os ft rel
          = Some (Inl (ValueError (missing_message rel part)))"
    using navigate_sorted [of root rel q]
    by (auto simp: FileTree_create_subtree_def)
  show ?thesis using a b c d by blast
qed

theorem create_subtree_errors_witness:
  "FileTree_create_subtree 3 example_os example_filetree (u ''a/../..'')
     = Some (Inl (ValueError above_root_message))
   \<and> FileTree_create_subtree 3 example_os example_filetree (u ''a/zz'')
     = Some (Inl (ValueError (missing_message (u ''a/zz'') (u ''zz''))))
   \<and> resolve_parts (split (normpath (u ''a/zz'')) SLASH) [] = Inr [u ''a'', u ''zz'']
   \<and> \<not> ascends_above (split (normpath (u ''a/zz'')) SLASH)"
proof -
  have p1: "split (normpath (u ''a/../..'')) SLASH = [u ''..'']"
    by (simp add: path_eval str_eval chars)
  have a1: "ascends_above [u ''..'']"
    unfolding ascends_above_def by (rule exI [of _ 1]) (simp add: chars)
  have p2: "split (normpath (u ''a/zz'')) SLASH = [u ''a'', u ''zz'']"
    by (simp add: path_eval str_eval chars)
  have r2: "resolve_parts [u ''a'', u ''zz''] [] = Inr [u ''a'', u ''zz'']"
    by (simp add: chars)
  have d2: "descend example_tree [u ''a'', u ''zz''] = Inl (u ''zz'')"
    by (simp add: sample chars)
  have s2: "sorted_tree example_tree"
    by (simp add: sample chars)
  have n2: "\<not> ascends_above [u ''a'', u ''zz'']"
    using resolve_parts_ascends [of "[u ''a'', u ''zz'']"] r2 by auto
  have rn: "root_node example_filetree = Some example_tree"
    by (simp add: example_filetree_def)
  note inst1 = create_subtree_errors [where rel = "u ''a/../..''" and fuel = 3
      and os = example_os and ft = example_filetree]
  note inst2 = create_subtree_errors [where rel = "u ''a/zz''" and fuel = 3
      and os = example_os and ft = example_filetree and root = example_tree
      and q = "[u ''a'', u ''zz'']" and part = "u ''zz''"]
  have w1: "FileTree_create_subtree 3 example_os example_filetree (u ''a/../..'')
     = Some (Inl (ValueError above_root_message))"
    using inst1 a1 unfolding p1 by blast
  have w2: "FileTree_create_subtree 3 example_os example_filetree (u ''a/zz'')
     = Some (Inl (ValueError (missing_message (u ''a/zz'') (u ''zz''))))"
    using inst2 rn s2 r2 d2 unfolding p2 by blast
  show ?thesis using w1 w2 r2 n2 unfolding p2 by simp
qed

text \<open>
  \<open>create_subtree("a/..")\<close> does not fail: the path normalises to \<open>.\<close>, nothing is
  left to resolve, and the result is a tree on the root node itself.
\<close>

theorem create_subtree_dotdot_counterexample:
  "FileTree_create_subtree 3 example_os example_filetree (u ''a/..'')
     = Some (Inr \<lparr>root_path = u ''root/a/..'', root_node = Some example_tree\<rparr>)"
  by (simp add: FileTree_create_subtree_def example_filetree_def path_eval bisect_left_def
      FileTree_init_def build_tree_def example_os_def numeral_3_eq_3
      should_ignore_def str_eval tree_eval chars sample)

section \<open>Lookup\<close>

lemma strict_sorted_tree_sel:
  "strict_sorted_tree t \<longleftrightarrow>
     sorted_wrt (<) (map name (children t)) \<and> (\<forall>c \<in> set (children t). strict_sorted_tree c)"
  by (cases t) simp

lemma first_some_append:
  "first_some (xs @ ys) = (case first_some xs of Some y \<Rightarrow> Some y | None \<Rightarrow> first_some ys)"
  by (induction xs rule: first_some.induct) simp_all

lemma first_some_None: "first_some xs = None \<longleftrightarrow> (\<forall>x \<in> set xs. x = None)"
  by (induction xs rule: first_some.induct) simp_all

lemma strict_sorted_imp_sorted: "sorted_wrt (<) (xs :: pystr list) \<Longrightarrow> sorted xs"
  by (induction xs) (auto simp: less_imp_le)

lemma found_iff:
  assumes "sorted_wrt (<) (map name cs)"
  shows "(bisect_left cs (TreeNode_init part lf) < length cs
           \<and> name (cs ! bisect_left cs (TreeNode_init part lf)) = part)
         \<longleftrightarrow> part \<in> set (map name cs)"
proof -
  have "sorted (map name cs)" using assms by (rule strict_sorted_imp_sorted)
  from bisect_left_find [OF this, of part lf]
  have f: "(if bisect_left cs (TreeNode_init part lf) < length cs
              \<and> name (cs ! bisect_left cs (TreeNode_init part lf)) = part
            then Some (cs ! bisect_left cs (TreeNode_init part lf)) else None)
           = find (\<lambda>c. name c = part) cs"
    by (simp add: Let_def)
  show ?thesis
  proof (cases "find (\<lambda>c. name c = part) cs")
    case None
    then have "part \<notin> set (map name cs)" by (auto simp: find_None_iff)
    moreover have "\<not> (bisect_left cs (TreeNode_init part lf) < length cs
           \<and> name (cs ! bisect_left cs (TreeNode_init part lf)) = part)"
      using f None by (simp split: if_splits)
    ultimately show ?thesis by blast
  next
    case (Some c)
    then have "c \<in> set cs" "name c = part" by (auto simp: find_Some_iff)
    then have "part \<in> set (map name cs)" by auto
    moreover have "bisect_left cs (TreeNode_init part lf) < length cs
           \<and> name (cs ! bisect_left cs (TreeNode_init part lf)) = part"
      using f Some by (simp split: if_splits)
    ultimately show ?thesis by blast
  qed
qed

lemma found_child:
  assumes "sorted_wrt (<) (map name cs)" "d \<in> set cs"
  shows "bisect_left cs (TreeNode_init (name d) lf) < length cs
         \<and> cs ! bisect_left cs (TreeNode_init (name d) lf) = d"
proof -
  let ?i = "bisect_left cs (TreeNode_init (name d) lf)"
  have "name d \<in> set (map name cs)" using assms(2) by simp
  then have i: "?i < length cs" "name (cs ! ?i) = name d"
    using found_iff [OF assms(1), of "name d" lf] by auto
  have "distinct (map name cs)"
    using assms(1) by (simp add: strict_sorted_iff)
  then have "inj_on name (set cs)" by (simp add: distinct_map)
  moreover have "cs ! ?i \<in> set cs" using i(1) by simp
  ultimately have "cs ! ?i = d" using i(2) assms(2) by (auto dest: inj_onD)
  then show ?thesis using i(1) by simp
qed

lemma where_descend_pushes:
  assumes "sorted_wrt (<) (map name (children n))" "set ds \<subseteq> set (children n)"
  shows "where_descend n p (map name ds) st
           = rev (map (\<lambda>d. (d, path_join p (name d))) ds) @ st"
  using assms(2)
proof (induction ds arbitrary: st)
  case Nil
  show ?case by simp
next
  case (Cons d ds)
  have "d \<in> set (children n)" using Cons.prems by simp
  from found_child [OF assms(1) this, of False] Cons.IH [of "(d, path_join p (name d)) # st"]
    Cons.prems
  show ?case by (simp add: Let_def)
qed

lemma sorted_names_of_dirs:
  assumes "sorted_wrt (<) (map name (children n))"
  shows "sorted_list_of_set (set (map name (subdirs n))) = map name (subdirs n)"
proof -
  have "sorted_wrt (<) (map name (subdirs n))"
    using assms unfolding subdirs_def
    by (induction "children n" arbitrary: n) (auto simp: sorted_wrt_map sorted_wrt_filter)
  then have "sorted (map name (subdirs n))" "distinct (map name (subdirs n))"
    by (simp_all add: strict_sorted_iff)
  then show ?thesis
    by (rule sorted_list_of_set.idem_if_sorted_distinct)
qed

lemma where_loop_search:
  "\<forall>(n, p) \<in> set st. strict_sorted_tree n \<and> names_inv n \<and> \<not> is_leaf n \<Longrightarrow>
   where_loop target st = Inr (first_some (map (\<lambda>(n, p). search_from p n target) st))"
proof (induction "sum_list (map (\<lambda>e. size (fst e)) st)" arbitrary: st rule: less_induct)
  case less
  show ?case
  proof (cases st)
    case Nil
    then show ?thesis by simp
  next
    case (Cons e rest)
    obtain n p where e: "e = (n, p)" by (cases e) auto
    have hyp: "strict_sorted_tree n" "names_inv n" "\<not> is_leaf n"
      and hyp_rest: "\<forall>(n, p) \<in> set rest. strict_sorted_tree n \<and> names_inv n \<and> \<not> is_leaf n"
      using less.prems Cons e by auto
    have srt: "sorted_wrt (<) (map name (children n))"
      using hyp(1) by (simp add: strict_sorted_tree_sel [of n])
    note fi = found_iff [OF srt, of target False]
    show ?thesis
    proof (cases "target \<in> set (map name (children n))")
      case True
      then show ?thesis
        using fi by (simp add: Cons e Let_def search_from.simps [of p n target])
    next
      case False
      let ?ds = "subdirs n"
      let ?push = "rev (map (\<lambda>d. (d, path_join p (name d))) ?ds) @ rest"
      have nl: "non_leaf_names n = Some (set (map name ?ds))"
        using hyp(2,3) by (simp add: names_inv_sel [of n] subdirs_def)
      have desc: "where_descend n p (sorted_list_of_set (set (map name ?ds))) rest = ?push"
        unfolding sorted_names_of_dirs [OF srt]
        by (rule where_descend_pushes [OF srt]) (auto simp: subdirs_def)
      have nf: "\<not> (bisect_left (children n) (TreeNode_init target False) < length (children n)
            \<and> name (children n ! bisect_left (children n) (TreeNode_init target False)) = target)"
        using False fi by blast
      have step: "where_loop target ((n, p) # rest) = where_loop target ?push"
        by (simp only: where_loop.simps Let_def nf if_False nl option.case desc)
      have "sum_list (map size ?ds) \<le> sum_list (map size (children n))"
        unfolding subdirs_def by (rule sum_size_filter)
      then have smaller: "sum_list (map (\<lambda>e. size (fst e)) ?push)
          < sum_list (map (\<lambda>e. size (fst e)) st)"
        using sum_size_children [of n] by (simp add: Cons e comp_def rev_map [symmetric])
      have sub: "\<forall>(m, q) \<in> set ?push. strict_sorted_tree m \<and> names_inv m \<and> \<not> is_leaf m"
        using hyp hyp_rest
        by (auto simp: subdirs_def strict_sorted_tree_sel [of n] names_inv_sel [of n])
      have "where_loop target ?push
          = Inr (first_some (map (\<lambda>(n, p). search_from p n target) ?push))"
        by (rule less.hyps [OF smaller sub])
      also have "map (\<lambda>(n, p). search_from p n target) ?push
          = map (\<lambda>d. search_from (path_join p (name d)) d target) (rev ?ds)
            @ map (\<lambda>(n, p). search_from p n target) rest"
        by (simp add: rev_map comp_def)
      finally show ?thesis
        using False step
        by (simp add: Cons e first_some_append search_from.simps [of p n target]
            split: option.splits)
    qed
  qed
qed

lemma search_from_None:
  "search_from p t target = None \<longleftrightarrow> \<not> occurs_below t target"
proof (induction "size t" arbitrary: t p rule: less_induct)
  case less
  have IH: "d \<in> set (subdirs t) \<Longrightarrow>
      search_from q d target = None \<longleftrightarrow> \<not> occurs_below d target" for d q
    using less [OF subdirs_size] by blast
  show ?case
    by (subst search_from.simps, subst occurs_below.simps)
       (auto simp: first_some_None IH)
qed

lemma first_some_Some: "first_some xs = Some y \<Longrightarrow> Some y \<in> set xs"
  by (induction xs rule: first_some.induct) auto

lemma search_from_Some:
  "search_from p t target = Some r \<Longrightarrow>
   \<exists>names. has_path t (names @ [target]) \<and> r = foldl path_join p (names @ [target])"
proof (induction "size t" arbitrary: t p rule: less_induct)
  case less
  show ?case
  proof (cases "target \<in> set (map name (children t))")
    case True
    then have "r = path_join p target"
      using less.prems by (simp add: search_from.simps [of p t target])
    moreover have "has_path t ([] @ [target])" using True by auto
    ultimately show ?thesis by (intro exI [of _ "[]"]) simp
  next
    case False
    then have "first_some (map (\<lambda>d. search_from (path_join p (name d)) d target)
                 (rev (subdirs t))) = Some r"
      using less.prems by (simp add: search_from.simps [of p t target])
    from first_some_Some [OF this] obtain d where d: "d \<in> set (subdirs t)"
      "search_from (path_join p (name d)) d target = Some r"
      by auto
    from less.hyps [OF subdirs_size [OF d(1)] d(2)] obtain names where
      n: "has_path d (names @ [target])"
         "r = foldl path_join (path_join p (name d)) (names @ [target])"
      by blast
    have "d \<in> set (children t)" using d(1) by (simp add: subdirs_def)
    then have "has_path t ((name d # names) @ [target])" using n(1) by auto
    then show ?thesis using n(2) by (intro exI [of _ "name d # names"]) simp
  qed
qed

text \<open>
  C5, as amended. On a tree with a directory root whose children lists are sorted by
  name without repeated names, and whose name sets satisfy the invariant, \<open>where\<close>
  returns the result of \<open>search_from\<close>: the path of the first occurrence met when the
  directory children are descended into in reverse alphabetical order. The result is
  \<open>None\<close> exactly when the target is the name of no node below the root, and a path
  returned is the root path joined with the names that lead to a node named \<open>target\<close>.
\<close>

theorem where_finds:
  assumes "strict_sorted_tree t" "names_inv t" "\<not> is_leaf t"
  shows "FileTree_where \<lparr>root_path = rp, root_node = Some t\<rparr> target
           = Inr (search_from rp t target)
    \<and> (search_from rp t target = None \<longleftrightarrow> \<not> occurs_below t target)
    \<and> (\<forall>r. search_from rp t target = Some r \<longrightarrow>
          (\<exists>names. has_path t (names @ [target])
             \<and> r = foldl path_join rp (names @ [target])))"
proof -
  have "where_loop target [(t, rp)] = Inr (search_from rp t target)"
    using where_loop_search [of "[(t, rp)]" target] assms
    by (cases "search_from rp t target") simp_all
  then show ?thesis
    using search_from_None [of rp t target] search_from_Some [of rp t target]
    by (simp add: FileTree_where_def)
qed

theorem where_finds_witness:
  "FileTree_where example_filetree (u ''b.txt'') = Inr (Some (u ''root/a/b.txt''))
   \<and> FileTree_where example_filetree (u ''missing'') = Inr None
   \<and> strict_sorted_tree example_tree \<and> names_inv example_tree \<and> \<not> is_leaf example_tree"
proof -
  have h: "strict_sorted_tree example_tree" "names_inv example_tree" "\<not> is_leaf example_tree"
    by (simp_all add: sample chars)
  have s1: "search_from (u ''root'') example_tree (u ''b.txt'') = Some (u ''root/a/b.txt'')"
    by (simp add: search_from.simps subdirs_def path_join_def str_eval sample chars)
  have s2: "search_from (u ''root'') example_tree (u ''missing'') = None"
    by (simp add: search_from.simps subdirs_def path_join_def str_eval sample chars)
  from where_finds [OF h, of "u ''root''"] s1 s2 h show ?thesis
    by (simp add: example_filetree_def)
qed

text \<open>
  In \<open>root/{a/{x}, b/{x}}\<close> the search in alphabetical order meets \<open>root/a/x\<close> first;
  \<open>where\<close> returns \<open>root/b/x\<close>.
\<close>

theorem where_reverse_order_counterexample:
  "strict_sorted_tree twin_tree \<and> names_inv twin_tree \<and> \<not> is_leaf twin_tree
   \<and> FileTree_where \<lparr>root_path = u ''root'', root_node = Some twin_tree\<rparr> (u ''x'')
       = Inr (Some (u ''root/b/x''))
   \<and> search_alphabetical (u ''root'') twin_tree (u ''x'') = Some (u ''root/a/x'')"
proof -
  have h: "strict_sorted_tree twin_tree" "names_inv twin_tree" "\<not> is_leaf twin_tree"
    by (simp_all add: twin_tree_def sample chars)
  have a: "search_alphabetical (u ''root'') twin_tree (u ''x'') = Some (u ''root/a/x'')"
    by (simp add: search_alphabetical.simps subdirs_def path_join_def str_eval twin_tree_def
        sample chars)
  have w: "FileTree_where \<lparr>root_path = u ''root'', root_node = Some twin_tree\<rparr> (u ''x'')
       = Inr (Some (u ''root/b/x''))"
    using where_loop_search [of "[(twin_tree, u ''root'')]" "u ''x''"] h
    by (simp add: FileTree_where_def)
       (simp add: search_from.simps subdirs_def path_join_def str_eval twin_tree_def sample chars)
  show ?thesis using h a w by simp
qed

section \<open>The mapping codec\<close>

lemma map_of_dict_set: "map_of (dict_set d k v) k' = (if k' = k then Some v else map_of d k')"
  by (induction d) auto

lemma dict_set_twice: "dict_set (dict_set d k v) k v' = dict_set d k v'"
  by (induction d) auto

lemma dict_set_same: "map_of d k = Some v \<Longrightarrow> dict_set d k v = d"
  by (induction d) (auto split: if_splits)

lemma dict_set_at_ok:
  "dict_at d p = Some x \<Longrightarrow>
   dict_set_at d p k v = Inr (dict_map_at (\<lambda>x. dict_set x k v) p d)"
proof (induction p arbitrary: d)
  case Nil
  then show ?case by simp
next
  case (Cons k0 p)
  then show ?case by (auto split: option.splits pyval.splits)
qed

lemma dict_at_map_at:
  "dict_at d p = Some x \<Longrightarrow> dict_at (dict_map_at f p d) p = Some (f x)"
proof (induction p arbitrary: d)
  case Nil
  then show ?case by simp
next
  case (Cons k p)
  then show ?case by (auto split: option.splits pyval.splits simp: map_of_dict_set)
qed

lemma dict_at_snoc:
  "dict_at d p = Some x \<Longrightarrow>
   dict_at d (p @ [k]) = (case map_of x k of Some (PDict inner) \<Rightarrow> Some inner | _ \<Rightarrow> None)"
proof (induction p arbitrary: d)
  case Nil
  then show ?case by (auto split: option.splits pyval.splits)
next
  case (Cons k0 p)
  then show ?case by (auto split: option.splits pyval.splits)
qed

lemma dict_map_at_twice:
  "dict_map_at f p (dict_map_at g p d) = dict_map_at (\<lambda>x. f (g x)) p d"
proof (induction p arbitrary: d)
  case Nil
  show ?case by simp
next
  case (Cons k p)
  show ?case
    using Cons.IH
    by (auto split: option.splits pyval.splits simp: map_of_dict_set dict_set_twice)
qed

lemma dict_map_at_snoc:
  "dict_map_at f (p @ [k]) d =
     dict_map_at (\<lambda>x. case map_of x k of Some (PDict inner) \<Rightarrow> dict_set x k (PDict (f inner))
                                         | _ \<Rightarrow> x) p d"
proof (induction p arbitrary: d)
  case Nil
  show ?case by (auto split: option.splits pyval.splits)
next
  case (Cons k0 p)
  show ?case using Cons.IH by (auto split: option.splits pyval.splits)
qed

lemma dict_map_at_id:
  "dict_at d p = Some x \<Longrightarrow> dict_map_at (\<lambda>x. x) p d = d"
proof (induction p arbitrary: d)
  case Nil
  then show ?case by simp
next
  case (Cons k p)
  then show ?case by (auto split: option.splits pyval.splits simp: dict_set_same)
qed

lemma to_dict_loop_children:
  "dict_at result p = Some d \<Longrightarrow>
   to_dict_loop (map (\<lambda>c. (c, Some p)) cs @ rest) result
     = to_dict_loop rest (dict_map_at (\<lambda>x. foldl ins x cs) p result)"
proof (induction "sum_list (map size cs)" arbitrary: cs rest result d p rule: less_induct)
  case less
  show ?case
  proof (cases cs)
    case Nil
    then show ?thesis using dict_map_at_id [OF less.prems] by simp
  next
    case (Cons c cs')
    let ?k = "name c"
    let ?v = "if \<not> is_leaf c then PDict [] else PNone"
    let ?result1 = "dict_map_at (\<lambda>x. dict_set x ?k ?v) p result"
    let ?tail = "map (\<lambda>c. (c, Some p)) cs' @ rest"
    have set1: "dict_set_at result p ?k ?v = Inr ?result1"
      by (rule dict_set_at_ok [OF less.prems])
    have at1: "dict_at ?result1 p = Some (dict_set d ?k ?v)"
      by (rule dict_at_map_at [OF less.prems])
    have small': "sum_list (map size cs') < sum_list (map size cs)"
      using Cons size_TreeNode_pos [of c] by simp
    show ?thesis
    proof (cases "is_leaf c")
      case True
      have step: "to_dict_loop (map (\<lambda>c. (c, Some p)) cs @ rest) result
          = to_dict_loop ?tail ?result1"
        using True set1 by (simp add: Cons Let_def)
      have "to_dict_loop ?tail ?result1
          = to_dict_loop rest (dict_map_at (\<lambda>x. foldl ins x cs') p ?result1)"
        using less.hyps [OF small' at1] .
      also have "dict_map_at (\<lambda>x. foldl ins x cs') p ?result1
          = dict_map_at (\<lambda>x. foldl ins x cs) p result"
        using True
        by (simp add: dict_map_at_twice Cons ins_def dict_of.simps [of c])
      finally show ?thesis using step by simp
    next
      case False
      let ?p' = "p @ [?k]"
      let ?kids = "map (\<lambda>ch. (ch, Some ?p')) (children c)"
      have step: "to_dict_loop (map (\<lambda>c. (c, Some p)) cs @ rest) result
          = to_dict_loop (?kids @ ?tail) ?result1"
        using False set1 by (simp add: Cons Let_def push_each_rev rev_map)
      have at1d: "dict_at (dict_map_at (\<lambda>x. dict_set x ?k (PDict [])) p result) p
          = Some (dict_set d ?k (PDict []))"
        by (rule dict_at_map_at [OF less.prems])
      have at1': "dict_at ?result1 ?p' = Some []"
        using False by (simp add: dict_at_snoc [OF at1d] map_of_dict_set)
      have smallc: "sum_list (map size (children c)) < sum_list (map size cs)"
        using sum_size_children [of c] Cons by simp
      let ?result2 = "dict_map_at (\<lambda>x. foldl ins x (children c)) ?p' ?result1"
      have kids: "to_dict_loop (?kids @ ?tail) ?result1 = to_dict_loop ?tail ?result2"
        using less.hyps [OF smallc at1'] .
      have r2: "?result2 = dict_map_at (\<lambda>x. ins x c) p result"
        using False
        by (simp add: dict_map_at_snoc dict_map_at_twice map_of_dict_set dict_set_twice
            ins_def [abs_def] dict_of.simps [of c])
      have at2: "dict_at ?result2 p = Some (ins d c)"
        unfolding r2 by (rule dict_at_map_at [OF less.prems])
      have "to_dict_loop ?tail ?result2
          = to_dict_loop rest (dict_map_at (\<lambda>x. foldl ins x cs') p ?result2)"
        using less.hyps [OF small' at2] .
      also have "dict_map_at (\<lambda>x. foldl ins x cs') p ?result2
          = dict_map_at (\<lambda>x. foldl ins x cs) p result"
        unfolding r2 by (simp add: dict_map_at_twice Cons)
      finally show ?thesis using step kids by simp
    qed
  qed
qed

lemma to_dict_is_dict_of: "to_dict t = Inr [(name t, dict_of t)]"
proof (cases "is_leaf t")
  case True
  then show ?thesis by (simp add: to_dict_def Let_def dict_of.simps [of t])
next
  case False
  have at: "dict_at [(name t, PDict [])] [name t] = Some []" by simp
  have "to_dict t
      = to_dict_loop (map (\<lambda>c. (c, Some [name t])) (children t) @ []) [(name t, PDict [])]"
    using False by (simp add: to_dict_def Let_def push_each_rev rev_map)
  also have "\<dots> = to_dict_loop []
      (dict_map_at (\<lambda>x. foldl ins x (children t)) [name t] [(name t, PDict [])])"
    by (rule to_dict_loop_children [OF at])
  also have "\<dots> = Inr [(name t, dict_of t)]"
    using False
    by (simp add: dict_of.simps [of t] ins_def [abs_def])
  finally show ?thesis .
qed

lemma map_at_id: "map_at (\<lambda>n. n) p t = t"
proof (induction p arbitrary: t)
  case Nil
  show ?case by simp
next
  case (Cons i p)
  show ?case by (cases t) (simp add: Cons.IH)
qed

lemma foldl_with_child_sel:
  "name (foldl with_child m cs) = name m" "is_leaf (foldl with_child m cs) = is_leaf m"
  by (induction cs arbitrary: m) simp_all

lemma tree_of_PNone: "tree_of k PNone = TreeNode_init k True"
  by (simp add: tree_of.simps [of k PNone])

lemma node_at_new_child:
  "node_at t p = Some n \<Longrightarrow>
   node_at (map_at (\<lambda>n. with_child n c) p t) (p @ [length (children n)]) = Some c"
  by (simp add: node_at_append node_at_map_at)

lemma from_dict_loop_items:
  "node_at root p = Some n \<Longrightarrow> non_leaf_names n \<noteq> None \<Longrightarrow>
   from_dict_loop (map (\<lambda>kv. (Some p, [kv])) items @ rest) (Some root)
     = from_dict_loop rest
         (Some (map_at (\<lambda>n. foldl with_child n (map (\<lambda>kv. tree_of (fst kv) (snd kv)) items))
                  p root))"
proof (induction "dsize items" arbitrary: items rest root n p rule: less_induct)
  case less
  let ?T = "\<lambda>kv. tree_of (fst kv) (snd kv)"
  show ?case
  proof (cases items)
    case Nil
    then show ?thesis by (simp add: map_at_id)
  next
    case (Cons kv items')
    obtain k v where kv: "kv = (k, v)" by (cases kv) auto
    let ?cur = "TreeNode_init k (v = PNone)"
    let ?root1 = "map_at (\<lambda>n. with_child n ?cur) p root"
    let ?ref = "p @ [length (children n)]"
    let ?tail = "map (\<lambda>kv. (Some p, [kv])) items' @ rest"
    have adopt: "can_adopt n ?cur" using less.prems(2) by (simp add: can_adopt_def)
    have att: "attach root p ?cur = Inr (?root1, ?ref)"
      by (rule attach_ok [OF less.prems(1) adopt])
    have at1: "node_at ?root1 p = Some (with_child n ?cur)"
      by (rule node_at_map_at [OF less.prems(1)])
    have nl1: "non_leaf_names (with_child n c) \<noteq> None" for c
      by (rule with_child_names [OF less.prems(2)])
    have small': "dsize items' < dsize items"
      by (cases v) (simp_all add: Cons kv dsize_def)
    have eta: "(\<lambda>(child_name, child_dict). (Some r, [(child_name, child_dict)]))
        = (\<lambda>kv. (Some r, [kv]))" for r :: ref
      by auto
    show ?thesis
    proof (cases "v = PNone")
      case True
      have step: "from_dict_loop (map (\<lambda>kv. (Some p, [kv])) items @ rest) (Some root)
          = from_dict_loop ?tail (Some ?root1)"
        using True att by (simp add: Cons kv Let_def)
      have "from_dict_loop ?tail (Some ?root1)
          = from_dict_loop rest (Some (map_at (\<lambda>n. foldl with_child n (map ?T items')) p ?root1))"
        by (rule less.hyps [OF small' at1 nl1])
      also have "map_at (\<lambda>n. foldl with_child n (map ?T items')) p ?root1
          = map_at (\<lambda>n. foldl with_child n (map ?T items)) p root"
        using True by (simp add: map_at_map_at Cons kv tree_of_PNone)
      finally show ?thesis using step by simp
    next
      case False
      let ?kids = "map (\<lambda>kv. (Some ?ref, [kv])) (items_of v)"
      have step: "from_dict_loop (map (\<lambda>kv. (Some p, [kv])) items @ rest) (Some root)
          = from_dict_loop (?kids @ ?tail) (Some ?root1)"
        using False att by (simp add: Cons kv Let_def push_each_rev rev_map eta)
      have smallv: "dsize (items_of v) < dsize items"
        using False by (cases v) (simp_all add: Cons kv dsize_def items_of_def)
      have atc: "node_at ?root1 ?ref = Some ?cur"
        by (rule node_at_new_child [OF less.prems(1)])
      have nlc: "non_leaf_names ?cur \<noteq> None"
        using False by (simp add: TreeNode_init_def)
      let ?F = "\<lambda>m. foldl with_child m (map ?T (items_of v))"
      let ?root2 = "map_at ?F ?ref ?root1"
      have kids: "from_dict_loop (?kids @ ?tail) (Some ?root1) = from_dict_loop ?tail (Some ?root2)"
        by (rule less.hyps [OF smallv atc nlc])
      have Fcur: "?F ?cur = tree_of k v"
        using False by (simp add: tree_of.simps [of k v])
      have "?root2 = map_at (\<lambda>m. map_at ?F [length (children n)] (with_child m ?cur)) p root"
        by (simp add: map_at_append map_at_map_at)
      also have "\<dots> = map_at (\<lambda>m. with_child m (tree_of k v)) p root"
      proof (rule map_at_cong_at [OF less.prems(1)])
        have "map_at ?F [length (children n)] (with_child n ?cur) = with_child n (?F ?cur)"
          by (rule with_child_then_fill) (simp_all add: foldl_with_child_sel)
        then show "map_at ?F [length (children n)] (with_child n ?cur)
            = with_child n (tree_of k v)"
          by (simp only: Fcur)
      qed
      finally have r2: "?root2 = map_at (\<lambda>m. with_child m (tree_of k v)) p root" .
      have at2: "node_at ?root2 p = Some (with_child n (tree_of k v))"
        unfolding r2 by (rule node_at_map_at [OF less.prems(1)])
      have "from_dict_loop ?tail (Some ?root2)
          = from_dict_loop rest (Some (map_at (\<lambda>n. foldl with_child n (map ?T items')) p ?root2))"
        by (rule less.hyps [OF small' at2 nl1])
      also have "map_at (\<lambda>n. foldl with_child n (map ?T items')) p ?root2
          = map_at (\<lambda>n. foldl with_child n (map ?T items)) p root"
        unfolding r2 by (simp add: map_at_map_at Cons kv)
      finally show ?thesis using step kids by simp
    qed
  qed
qed

lemma from_dict_is_tree_of:
  "from_dict ((nm, v) # others) = Inr (Some (tree_of nm v))"
proof (cases "v = PNone")
  case True
  then show ?thesis by (simp add: from_dict_def Let_def tree_of_PNone)
next
  case False
  let ?cur = "TreeNode_init nm False"
  have eta: "(\<lambda>(child_name, child_dict). (Some r, [(child_name, child_dict)]))
      = (\<lambda>kv. (Some r, [kv]))" for r :: ref
    by auto
  have "from_dict ((nm, v) # others)
      = from_dict_loop (map (\<lambda>kv. (Some [], [kv])) (items_of v) @ []) (Some ?cur)"
    using False by (simp add: from_dict_def Let_def push_each_rev rev_map eta)
  also have "\<dots> = from_dict_loop []
      (Some (map_at (\<lambda>n. foldl with_child n (map (\<lambda>kv. tree_of (fst kv) (snd kv)) (items_of v)))
               [] ?cur))"
    by (rule from_dict_loop_items [of _ _ ?cur]) (simp_all add: TreeNode_init_def)
  also have "\<dots> = Inr (Some (tree_of nm v))"
    using False by (simp add: tree_of.simps [of nm v])
  finally show ?thesis .
qed

lemma dict_set_fresh: "k \<notin> fst ` set d \<Longrightarrow> dict_set d k v = d @ [(k, v)]"
  by (induction d) auto

lemma foldl_ins_distinct:
  "distinct (map name cs) \<Longrightarrow> name ` set cs \<inter> fst ` set d = {} \<Longrightarrow>
   foldl ins d cs = d @ map (\<lambda>c. (name c, dict_of c)) cs"
proof (induction cs arbitrary: d)
  case Nil
  show ?case by simp
next
  case (Cons c cs)
  have fresh: "name c \<notin> fst ` set d" using Cons.prems(2) by auto
  have step: "ins d c = d @ [(name c, dict_of c)]"
    unfolding ins_def by (rule dict_set_fresh [OF fresh])
  have "foldl ins (d @ [(name c, dict_of c)]) cs
      = (d @ [(name c, dict_of c)]) @ map (\<lambda>c. (name c, dict_of c)) cs"
    using Cons.prems by (intro Cons.IH) auto
  then show ?case by (simp add: step)
qed

lemma dict_of_leaf: "is_leaf t \<Longrightarrow> dict_of t = PNone"
  by (simp add: dict_of.simps [of t])

lemma dict_of_dir:
  "\<not> is_leaf t \<Longrightarrow> distinct (map name (children t)) \<Longrightarrow>
   dict_of t = PDict (map (\<lambda>c. (name c, dict_of c)) (children t))"
  using foldl_ins_distinct [of "children t" "[]"]
  by (simp add: dict_of.simps [of t] ins_def [abs_def])

lemma foldl_with_child:
  "foldl with_child (TreeNode nm lf cs0 (Some S)) cs
     = TreeNode nm lf (cs0 @ cs) (Some (S \<union> set (map name (filter (\<lambda>c. \<not> is_leaf c) cs))))"
  by (induction cs arbitrary: cs0 S) (simp_all add: with_child_def)

lemma tree_of_dict_of: "node_tree t \<Longrightarrow> tree_of (name t) (dict_of t) = t"
proof (induction t rule: measure_induct_rule [of size])
  case (less t)
  obtain nm lf cs s where t: "t = TreeNode nm lf cs s" by (cases t)
  show ?case
  proof (cases lf)
    case True
    then show ?thesis
      using less.prems by (simp add: t dict_of_leaf tree_of_PNone TreeNode_init_def)
  next
    case False
    have dist: "distinct (map name cs)" and s: "s = Some (set (map name (filter (\<lambda>c. \<not> is_leaf c) cs)))"
      and kids: "\<And>c. c \<in> set cs \<Longrightarrow> node_tree c"
      using less.prems False by (simp_all add: t)
    have d: "dict_of t = PDict (map (\<lambda>c. (name c, dict_of c)) cs)"
      using dict_of_dir [of t] False dist by (simp add: t)
    have kids_back: "map (\<lambda>c. tree_of (name c) (dict_of c)) cs = cs"
    proof (rule map_idI)
      fix c assume c: "c \<in> set cs"
      then have "size c < size t" by (intro child_size) (simp add: t)
      then show "tree_of (name c) (dict_of c) = c" by (rule less.IH) (rule kids [OF c])
    qed
    have "tree_of nm (PDict (map (\<lambda>c. (name c, dict_of c)) cs))
        = foldl with_child (TreeNode_init nm False) (map (\<lambda>c. tree_of (name c) (dict_of c)) cs)"
      by (simp add: tree_of.simps [of nm "PDict _"] items_of_def comp_def)
    also have "\<dots> = TreeNode nm False cs (Some (set (map name (filter (\<lambda>c. \<not> is_leaf c) cs))))"
      by (simp only: kids_back) (simp add: TreeNode_init_def foldl_with_child)
    finally have "tree_of nm (PDict (map (\<lambda>c. (name c, dict_of c)) cs))
        = TreeNode nm False cs (Some (set (map name (filter (\<lambda>c. \<not> is_leaf c) cs))))" .
    moreover have "name t = nm" by (simp add: t)
    moreover have "TreeNode nm False cs (Some (set (map name (filter (\<lambda>c. \<not> is_leaf c) cs)))) = t"
      using False by (simp only: t s)
    ultimately show ?thesis by (simp only: d)
  qed
qed

lemma dict_round_trip:
  "node_tree t \<Longrightarrow>
   to_dict t = Inr [(name t, dict_of t)] \<and> from_dict [(name t, dict_of t)] = Inr (Some t)"
  by (simp add: to_dict_is_dict_of from_dict_is_tree_of tree_of_dict_of)

lemma node_tree_sel:
  "node_tree t \<longleftrightarrow>
     (if is_leaf t then children t = [] \<and> non_leaf_names t = None
      else non_leaf_names t = Some (set (map name (filter (\<lambda>c. \<not> is_leaf c) (children t)))))
     \<and> distinct (map name (children t)) \<and> (\<forall>c \<in> set (children t). node_tree c)"
  by (cases t) simp

lemma dict_entries_single:
  "dict_entries [(k, v)]
     = ([k], v = PNone) # map (\<lambda>(p, l). (k # p, l)) (dict_entries (items_of v))"
  by (simp add: dict_entries.simps [of "[(k, v)]"])

lemma dict_entries_concat: "dict_entries d = concat (map (\<lambda>kv. dict_entries [kv]) d)"
proof -
  have "dict_entries [kv] = ([fst kv], snd kv = PNone)
       # map (\<lambda>(p, l). (fst kv # p, l)) (dict_entries (items_of (snd kv)))" for kv
    by (cases kv) (simp add: dict_entries_single)
  then show ?thesis by (simp add: dict_entries.simps [of d])
qed

lemma entries_agree: "node_tree t \<Longrightarrow> dict_entries [(name t, dict_of t)] = tree_entries t"
proof (induction t rule: measure_induct_rule [of size])
  case (less t)
  note nt = less.prems [unfolded node_tree_sel [of t]]
  show ?case
  proof (cases "is_leaf t")
    case True
    then show ?thesis
      using nt by (simp add: dict_of_leaf dict_entries_single tree_entries.simps [of t]
          items_of_def dict_entries.simps [of "[]"])
  next
    case False
    have d: "dict_of t = PDict (map (\<lambda>c. (name c, dict_of c)) (children t))"
      using dict_of_dir [of t] False nt by simp
    have kids: "map (\<lambda>c. dict_entries [(name c, dict_of c)]) (children t)
        = map tree_entries (children t)"
    proof (rule map_cong [OF refl])
      fix c assume c: "c \<in> set (children t)"
      then have "node_tree c" using nt by simp
      with c show "dict_entries [(name c, dict_of c)] = tree_entries c"
        by (intro less.IH child_size)
    qed
    have "dict_entries (items_of (dict_of t)) = concat (map tree_entries (children t))"
      by (subst dict_entries_concat) (simp add: d items_of_def comp_def kids)
    then show ?thesis
      using False by (simp add: dict_entries_single d tree_entries.simps [of t])
  qed
qed

text \<open>
  C9. For every Node Tree \<open>t\<close>, \<open>to_dict\<close> returns a one-entry mapping whose value lists
  the children of \<open>t\<close> in their stored order, and \<open>from_dict\<close> of that mapping returns
  \<open>t\<close> itself: the same names, tags and children, in the same order, at every node.
\<close>

theorem mapping_round_trip_keeps_order:
  "node_tree t \<Longrightarrow>
   \<exists>v. to_dict t = Inr [(name t, v)] \<and> from_dict [(name t, v)] = Inr (Some t)
     \<and> map fst (items_of v) = map name (children t)"
proof -
  assume nt: "node_tree t"
  have keys: "map fst (items_of (dict_of t)) = map name (children t)"
  proof (cases "is_leaf t")
    case True
    then show ?thesis using nt by (simp add: node_tree_sel [of t] dict_of_leaf items_of_def)
  next
    case False
    then show ?thesis
      using nt dict_of_dir [of t] by (simp add: node_tree_sel [of t] items_of_def comp_def)
  qed
  show ?thesis
    using dict_round_trip [OF nt] keys by blast
qed

theorem mapping_round_trip_keeps_order_witness:
  "node_tree example_tree \<and> to_dict example_tree = Inr example_dict
     \<and> from_dict example_dict = Inr (Some example_tree)"
proof -
  have nt: "node_tree example_tree" by (simp add: sample u_def)
  have td: "to_dict example_tree = Inr example_dict"
    by (simp add: to_dict_is_dict_of dict_of.simps sample example_dict_def u_def)
  from mapping_round_trip_keeps_order [OF nt] td nt show ?thesis by auto
qed

text \<open>
  C2. For every Node Tree \<open>t\<close>, \<open>from_dict (to_dict t)\<close> is a tree with the same nodes as
  \<open>t\<close>: the same paths of names from the root, each with the same leaf or directory
  tag. The mapping itself has an entry for every node of \<open>t\<close>, at every depth, and no
  other entry.
\<close>

theorem mapping_round_trip_complete:
  "node_tree t \<Longrightarrow>
   \<exists>d t'. to_dict t = Inr d \<and> from_dict d = Inr (Some t')
     \<and> set (dict_entries d) = set (tree_entries t)
     \<and> set (tree_entries t') = set (tree_entries t)"
proof -
  assume nt: "node_tree t"
  let ?d = "[(name t, dict_of t)]"
  have "to_dict t = Inr ?d" and "from_dict ?d = Inr (Some t)"
    using dict_round_trip [OF nt] by simp_all
  moreover have "set (dict_entries ?d) = set (tree_entries t)"
    by (simp only: entries_agree [OF nt])
  ultimately show ?thesis by blast
qed

theorem mapping_round_trip_complete_witness:
  "node_tree small_tree \<and>
   (\<exists>d t'. to_dict small_tree = Inr d \<and> from_dict d = Inr (Some t')
      \<and> set (dict_entries d) = {([u ''root''], False), ([u ''root'', u ''f''], True)}
      \<and> set (tree_entries t') = {([u ''root''], False), ([u ''root'', u ''f''], True)})"
proof -
  have nt: "node_tree small_tree" by (simp add: small_tree_def sample)
  have es: "set (tree_entries small_tree)
      = {([u ''root''], False), ([u ''root'', u ''f''], True)}"
    by (simp add: tree_entries.simps small_tree_def sample)
  from mapping_round_trip_complete [OF nt] nt show ?thesis unfolding es by blast
qed

section \<open>Round trips of the diagram and the listing\<close>

lemma chain_snoc: "chain (p @ [i]) = (p @ [i]) # chain p"
  by (simp add: chain_def)

lemma chain_length: "length (chain p) = length p + 1"
  by (simp add: chain_def)

lemma chain_Cons: "\<exists>below. chain p = p # below"
  by (simp add: chain_def)

lemma pop_to_extra: "length st = n \<Longrightarrow> pop_to n (extra @ st) = st"
proof (induction extra)
  case Nil
  then show ?case by (subst pop_to.simps) simp
next
  case (Cons x extra)
  then show ?case by (subst pop_to.simps) simp
qed

lemma from_md_line_place: "from_md_line state line = place state (line_fields line)"
  by (simp add: from_md_line_def place_def line_fields_def Let_def
      split: prod.splits list.splits sum.splits)

lemma from_md_lines_place: "from_md_lines state ls = place_all state (map line_fields ls)"
  by (induction ls arbitrary: state) (simp_all add: from_md_line_place split: sum.splits)

lemma place_all_append:
  "place_all state (xs @ ys)
     = (case place_all state xs of Inl e \<Rightarrow> Inl e | Inr state1 \<Rightarrow> place_all state1 ys)"
  by (induction xs arbitrary: state) (simp_all split: sum.splits)

lemma place_ok:
  assumes at: "node_at root p = Some n" and nl: "non_leaf_names n \<noteq> None"
  shows "place (root, extra @ chain p) (length p, nm, lf)
     = Inr (map_at (\<lambda>n. with_child n (TreeNode_init nm lf)) p root,
            if lf then chain p else chain (p @ [length (children n)]))"
proof -
  obtain below where ch: "chain p = p # below" using chain_Cons by blast
  have pop: "pop_to (length p + 1) (extra @ chain p) = chain p"
    by (rule pop_to_extra) (simp add: chain_length)
  have adopt: "can_adopt n (TreeNode_init nm lf)" using nl by (simp add: can_adopt_def)
  have pop': "pop_to (Suc (length p)) (extra @ p # below) = p # below"
    using pop by (simp add: ch)
  show ?thesis
    by (simp add: place_def pop' attach_ok [OF at adopt] chain_snoc ch)
qed

lemma node_tree_leaf: "node_tree c \<Longrightarrow> is_leaf c \<Longrightarrow> TreeNode_init (name c) True = c"
  by (cases c) (simp add: TreeNode_init_def)

lemma node_tree_dir:
  "node_tree c \<Longrightarrow> \<not> is_leaf c \<Longrightarrow>
   foldl with_child (TreeNode_init (name c) False) (children c) = c"
  by (cases c) (simp add: TreeNode_init_def foldl_with_child)

lemma place_all_forest:
  "node_at root p = Some n \<Longrightarrow> non_leaf_names n \<noteq> None \<Longrightarrow> (\<forall>c \<in> set cs. node_tree c) \<Longrightarrow>
   \<exists>extra'. place_all (root, extra @ chain p) (concat (map (preorder_fields (length p)) cs))
     = Inr (map_at (\<lambda>n. foldl with_child n cs) p root, extra' @ chain p)"
proof (induction "sum_list (map size cs)" arbitrary: cs root n p extra rule: less_induct)
  case less
  show ?case
  proof (cases cs)
    case Nil
    then show ?thesis by (simp add: map_at_id)
  next
    case (Cons c cs')
    let ?init = "TreeNode_init (name c) (is_leaf c)"
    let ?root1 = "map_at (\<lambda>n. with_child n ?init) p root"
    let ?ref = "p @ [length (children n)]"
    let ?root2 = "map_at (\<lambda>n. with_child n c) p root"
    let ?rest = "concat (map (preorder_fields (length p)) cs')"
    have ntc: "node_tree c" and nts: "\<forall>c \<in> set cs'. node_tree c"
      using less.prems(3) by (simp_all add: Cons)
    have nl1: "non_leaf_names (with_child n x) \<noteq> None" for x
      by (rule with_child_names [OF less.prems(2)])
    have at2: "node_at ?root2 p = Some (with_child n c)"
      by (rule node_at_map_at [OF less.prems(1)])
    have small': "sum_list (map size cs') < sum_list (map size cs)"
      by (simp add: Cons size_TreeNode_pos)
    have tail: "\<exists>extra'. place_all (?root2, ex @ chain p) ?rest
        = Inr (map_at (\<lambda>n. foldl with_child n cs) p root, extra' @ chain p)" for ex
    proof -
      obtain extra' where "place_all (?root2, ex @ chain p) ?rest
          = Inr (map_at (\<lambda>n. foldl with_child n cs') p ?root2, extra' @ chain p)"
        using less.hyps [OF small' at2 nl1 nts] by blast
      then show ?thesis by (auto simp: map_at_map_at Cons)
    qed
    have first: "place (root, extra @ chain p) (length p, name c, is_leaf c)
        = Inr (?root1, if is_leaf c then chain p else chain ?ref)"
      by (rule place_ok [OF less.prems(1,2)])
    show ?thesis
    proof (cases "is_leaf c")
      case True
      note c = node_tree_leaf [OF ntc True]
      have its: "preorder_fields (length p) c = [(length p, name c, True)]"
        using ntc True by (simp add: preorder_fields.simps [of _ c] node_tree_sel [of c])
      obtain extra' where "place_all (?root2, [] @ chain p) ?rest
          = Inr (map_at (\<lambda>n. foldl with_child n cs) p root, extra' @ chain p)"
        using tail by blast
      then show ?thesis
        using first True by (auto simp: Cons its c)
    next
      case False
      have its: "preorder_fields (length p) c = (length p, name c, False)
          # concat (map (preorder_fields (length ?ref)) (children c))"
        using False by (simp add: preorder_fields.simps [of _ c])
      have atc: "node_at ?root1 ?ref = Some ?init"
        by (rule node_at_new_child [OF less.prems(1)])
      have nlc: "non_leaf_names ?init \<noteq> None"
        using False by (simp add: TreeNode_init_def)
      have smallc: "sum_list (map size (children c)) < sum_list (map size cs)"
        using sum_size_children [of c] by (simp add: Cons)
      have ntk: "\<forall>k \<in> set (children c). node_tree k"
        using ntc by (simp add: node_tree_sel [of c])
      let ?F = "\<lambda>m. foldl with_child m (children c)"
      obtain e1 where kids: "place_all (?root1, [] @ chain ?ref)
            (concat (map (preorder_fields (length ?ref)) (children c)))
          = Inr (map_at ?F ?ref ?root1, e1 @ chain ?ref)"
        using less.hyps [OF smallc atc nlc ntk] by blast
      have Fc: "?F ?init = c" using node_tree_dir [OF ntc False] False by simp
      have "map_at ?F ?ref ?root1
          = map_at (\<lambda>m. map_at ?F [length (children n)] (with_child m ?init)) p root"
        by (simp add: map_at_append map_at_map_at)
      also have "\<dots> = ?root2"
      proof (rule map_at_cong_at [OF less.prems(1)])
        have "map_at ?F [length (children n)] (with_child n ?init) = with_child n (?F ?init)"
          by (rule with_child_then_fill) (simp_all add: foldl_with_child_sel)
        then show "map_at ?F [length (children n)] (with_child n ?init) = with_child n c"
          by (simp only: Fc)
      qed
      finally have r2: "map_at ?F ?ref ?root1 = ?root2" .
      obtain extra' where rest: "place_all (?root2, (e1 @ [?ref]) @ chain p) ?rest
          = Inr (map_at (\<lambda>n. foldl with_child n cs) p root, extra' @ chain p)"
        using tail by blast
      have "place_all (root, extra @ chain p) (concat (map (preorder_fields (length p)) cs))
          = place_all (?root1, chain ?ref)
              (concat (map (preorder_fields (length ?ref)) (children c)) @ ?rest)"
        using first False by (simp add: Cons its)
      also have "\<dots> = place_all (?root2, (e1 @ [?ref]) @ chain p) ?rest"
        using kids by (simp add: place_all_append r2 chain_snoc)
      finally have "place_all (root, extra @ chain p) (concat (map (preorder_fields (length p)) cs))
          = Inr (map_at (\<lambda>n. foldl with_child n cs) p root, extra' @ chain p)"
        by (simp only: rest)
      then show ?thesis by (rule exI)
    qed
  qed
qed

lemma clean_tree_sel:
  "clean_tree t \<longleftrightarrow> clean (name t) \<and> (\<forall>c \<in> set (children t). clean_tree c)"
  by (cases t) simp

lemma remove_all_single: "remove_all [x] s = filter (\<lambda>c. c \<noteq> x) s"
  by (induction s) auto

lemma remove_all_skip:
  "old \<noteq> [] \<Longrightarrow> hd old \<notin> set a \<Longrightarrow> remove_all old (a @ s) = a @ remove_all old s"
proof (induction a)
  case Nil
  show ?case by simp
next
  case (Cons c a)
  obtain x xs where old: "old = x # xs" using Cons.prems(1) by (cases old) auto
  have "c \<noteq> x" using Cons.prems(2) by (auto simp: old)
  then show ?case using Cons by (simp add: old)
qed

lemma remove_all_absent: "old \<noteq> [] \<Longrightarrow> hd old \<notin> set s \<Longrightarrow> remove_all old s = s"
  using remove_all_skip [of old s "[]"] by simp

lemma remove_all_hit: "old \<noteq> [] \<Longrightarrow> remove_all old (old @ s) = remove_all old s"
  by (cases old) simp_all

lemma dropWhile_stop: "\<not> P y \<Longrightarrow> dropWhile P (xs @ y # ys) = dropWhile P xs @ y # ys"
  by (induction xs) simp_all

lemma lstrip_spaces:
  "\<forall>c \<in> set a. isspace c \<Longrightarrow> \<not> isspace x \<Longrightarrow> lstrip (a @ x # s) = x # s"
  by (simp add: lstrip_def dropWhile_stop)

lemma rstrip_id: "s \<noteq> [] \<Longrightarrow> \<not> isspace (last s) \<Longrightarrow> rstrip s = s"
proof -
  assume "s \<noteq> []" and sp: "\<not> isspace (last s)"
  then obtain xs x where s: "s = xs @ [x]" by (metis append_butlast_last_id)
  show ?thesis using sp by (simp add: s rstrip_def)
qed

lemma endswith_single: "endswith s [x] \<longleftrightarrow> s \<noteq> [] \<and> last s = x"
proof (cases "s = []")
  case True
  then show ?thesis by (simp add: endswith_def)
next
  case False
  then obtain xs y where s: "s = xs @ [y]" by (metis append_butlast_last_id)
  show ?thesis by (simp add: s endswith_def)
qed

lemma splitlines_from_plain:
  "\<forall>c \<in> set l. \<not> islinebreak c \<Longrightarrow> cur @ l \<noteq> [] \<Longrightarrow> splitlines_from cur l = [cur @ l]"
proof (induction cur l rule: splitlines_from.induct)
  case (1 cur)
  then show ?case by simp
next
  case (2 cur c)
  then show ?case by simp
next
  case (3 cur c d s)
  have "\<not> islinebreak c" using "3.prems"(1) by simp
  moreover have "c \<noteq> CR" using \<open>\<not> islinebreak c\<close> by (auto simp: islinebreak_def CR_def)
  ultimately show ?case using 3 by simp
qed

lemma splitlines_from_line:
  "\<forall>c \<in> set l. \<not> islinebreak c \<Longrightarrow>
   splitlines_from cur (l @ NL # rest) = (cur @ l) # splitlines_from [] rest"
proof (induction l arbitrary: cur)
  case Nil
  have nl: "islinebreak NL" "NL \<noteq> CR" by (simp_all add: islinebreak_def NL_def CR_def)
  show ?case using nl by (cases rest) simp_all
next
  case (Cons x l')
  obtain d s where ds: "l' @ NL # rest = d # s" by (cases l') auto
  have nb: "\<not> islinebreak x" using Cons.prems by simp
  then have ncr: "x \<noteq> CR" by (auto simp: islinebreak_def CR_def)
  have "splitlines_from cur (x # d # s) = splitlines_from (cur @ [x]) (d # s)"
    using nb ncr by simp
  also have "\<dots> = ((cur @ [x]) @ l') # splitlines_from [] rest"
    unfolding ds [symmetric] using Cons.prems by (intro Cons.IH) simp
  finally show ?case by (simp add: ds)
qed

lemma splitlines_join:
  "\<forall>l \<in> set ls. l \<noteq> [] \<and> (\<forall>c \<in> set l. \<not> islinebreak c) \<Longrightarrow>
   splitlines (join [NL] ls) = ls"
proof (induction ls)
  case Nil
  show ?case by (simp add: splitlines_def)
next
  case (Cons l ls)
  show ?case
  proof (cases "ls = []")
    case True
    then show ?thesis using Cons.prems by (simp add: splitlines_def splitlines_from_plain)
  next
    case False
    have "splitlines (join [NL] (l # ls)) = l # splitlines (join [NL] ls)"
      using False Cons.prems by (simp add: join_Cons splitlines_def splitlines_from_line)
    then show ?thesis using Cons by simp
  qed
qed

lemma hd_join: "ls \<noteq> [] \<Longrightarrow> hd ls \<noteq> [] \<Longrightarrow> hd (join sep ls) = hd (hd ls)"
  by (cases ls) (simp_all add: join_Cons)

lemma last_join: "ls \<noteq> [] \<Longrightarrow> last ls \<noteq> [] \<Longrightarrow> last (join sep ls) = last (last ls)"
proof (induction ls)
  case Nil
  then show ?case by simp
next
  case (Cons l ls)
  show ?case
  proof (cases "ls = []")
    case True
    then show ?thesis by simp
  next
    case False
    then have "join sep ls \<noteq> []" using Cons.prems(2) 
      by (induction ls) (auto simp: join_Cons split: if_splits)
    then show ?thesis using Cons False by (simp add: join_Cons)
  qed
qed

lemma join_nonempty: "ls \<noteq> [] \<Longrightarrow> hd ls \<noteq> [] \<Longrightarrow> join sep ls \<noteq> []"
  by (cases ls) (simp_all add: join_Cons)

lemma strip_id: "s \<noteq> [] \<Longrightarrow> \<not> isspace (hd s) \<Longrightarrow> \<not> isspace (last s) \<Longrightarrow> strip s = s"
proof -
  assume ne: "s \<noteq> []" and h: "\<not> isspace (hd s)" and l: "\<not> isspace (last s)"
  have "lstrip s = s" using ne h by (cases s) (simp_all add: lstrip_def)
  then show ?thesis using ne l by (simp add: strip_def rstrip_id)
qed

lemma connector_chars:
  "\<not> isspace BOX_UR" "\<not> isspace BOX_VR" "isspace SPACE" "\<not> isspace SLASH"
  "BOX_UR \<noteq> BOX_V" "BOX_VR \<noteq> BOX_V" "BOX_H \<noteq> BOX_V" "SPACE \<noteq> BOX_V" "SLASH \<noteq> BOX_V"
  "BOX_UR \<noteq> BOX_VR" "BOX_UR \<noteq> BOX_H" "BOX_UR \<noteq> SPACE" "BOX_UR \<noteq> SLASH"
  "BOX_VR \<noteq> BOX_H" "BOX_VR \<noteq> SPACE" "BOX_VR \<noteq> SLASH" "SPACE \<noteq> SLASH" "BOX_H \<noteq> SLASH"
  "\<not> islinebreak SPACE" "\<not> islinebreak SLASH" "\<not> islinebreak BOX_V" "\<not> islinebreak BOX_UR"
  "\<not> islinebreak BOX_VR" "\<not> islinebreak BOX_H"
  by (simp_all add: chars isspace_def islinebreak_def)

lemma line_fields_md_line:
  assumes cl: "clean (name c)" and lvl: "0 < lvl" and cp: "set cp \<subseteq> {SPACE, BOX_V}"
    and len: "length cp = 4 * k"
  shows "line_fields (md_line (c, lvl, il, cp)) = (k, name c, is_leaf c)"
proof -
  define x where "x = (if il then BOX_UR else BOX_VR)"
  define conn where "conn = [x, BOX_H, BOX_H, SPACE]"
  define tl where "tl = name c @ (if \<not> is_leaf c then [SLASH] else [])"
  define cp' where "cp' = dropWhile isspace cp"
  define sp where "sp = filter (\<lambda>c. c \<noteq> BOX_V) cp'"
  note cc = connector_chars
  have nm: "name c \<noteq> []" "\<not> isspace (hd (name c))" "\<not> isspace (last (name c))"
    and nmc: "\<And>a. a \<in> set (name c) \<Longrightarrow>
        a \<noteq> SLASH \<and> a \<noteq> BOX_V \<and> a \<noteq> BOX_VR \<and> a \<noteq> BOX_UR"
    using cl by (auto simp: clean_def)
  have line: "md_line (c, lvl, il, cp) = cp @ conn @ tl"
    using lvl by (simp add: md_line_def conn_def x_def tl_def LAST_CONNECTOR_def MID_CONNECTOR_def)
  have conn: "conn = (if il then LAST_CONNECTOR else MID_CONNECTOR)"
    by (simp add: conn_def x_def LAST_CONNECTOR_def MID_CONNECTOR_def)
  have x: "\<not> isspace x" "x \<noteq> BOX_V" by (simp_all add: x_def cc)
  have tl_ne: "tl \<noteq> []" using nm by (simp add: tl_def)
  have tl_last: "last tl = (if \<not> is_leaf c then SLASH else last (name c))"
    by (simp add: tl_def)
  have tl_sp: "\<not> isspace (last tl)" using nm by (simp add: tl_last cc)
  have tl_v: "filter (\<lambda>c. c \<noteq> BOX_V) tl = tl"
    using nmc by (auto simp: tl_def cc intro!: filter_True)
  have conn_v: "filter (\<lambda>c. c \<noteq> BOX_V) conn = conn"
    by (simp add: conn_def x cc)
  have rm: "remove_all [BOX_V] (a @ conn @ tl) = filter (\<lambda>c. c \<noteq> BOX_V) a @ conn @ tl" for a
    by (simp add: remove_all_single tl_v conn_v)
  have spaces: "\<forall>c \<in> set (filter (\<lambda>c. c \<noteq> BOX_V) a). isspace c" if "set a \<subseteq> {SPACE, BOX_V}" for a
    using that by (auto simp: cc)
  have "lstrip (remove_all [BOX_V] (cp @ conn @ tl)) = conn @ tl"
    unfolding rm using lstrip_spaces [OF spaces [OF cp] x(1)] by (simp add: conn_def)
  then have indent: "length (md_line (c, lvl, il, cp))
      - length (lstrip (remove_all [BOX_V] (md_line (c, lvl, il, cp)))) = 4 * k"
    by (simp add: line len)
  have "lstrip (cp @ conn @ tl) = cp' @ conn @ tl"
    using dropWhile_stop [of isspace x cp] x(1) by (simp add: lstrip_def conn_def cp'_def)
  moreover have "rstrip (cp' @ conn @ tl) = cp' @ conn @ tl"
    by (rule rstrip_id) (simp_all add: tl_ne tl_sp)
  ultimately have content: "strip (md_line (c, lvl, il, cp)) = cp' @ conn @ tl"
    by (simp add: strip_def line)
  have leaf: "endswith (cp' @ conn @ tl) [SLASH] \<longleftrightarrow> \<not> is_leaf c"
    using nmc [of "last (name c)"] nm(1) by (simp add: endswith_single tl_ne tl_last)
  have cp': "set cp' \<subseteq> {SPACE, BOX_V}"
    using cp set_dropWhileD [of _ isspace cp] by (auto simp: cp'_def)
  have sp: "set sp \<subseteq> {SPACE}" using cp' by (auto simp: sp_def)
  have r1: "remove_all [BOX_V] (cp' @ conn @ tl) = sp @ conn @ tl"
    by (simp add: rm sp_def)
  have free: "BOX_UR \<notin> set sp" "BOX_VR \<notin> set sp" "BOX_UR \<notin> set tl" "BOX_VR \<notin> set tl"
    using sp nmc by (auto simp: cc tl_def)
  have r2: "remove_all MID_CONNECTOR (remove_all LAST_CONNECTOR (sp @ conn @ tl)) = sp @ tl"
  proof (cases il)
    case True
    have "remove_all LAST_CONNECTOR (sp @ LAST_CONNECTOR @ tl) = sp @ tl"
      using free by (simp add: remove_all_skip remove_all_hit remove_all_absent
          LAST_CONNECTOR_def)
    moreover have "remove_all MID_CONNECTOR (sp @ tl) = sp @ tl"
      using free by (intro remove_all_absent) (simp_all add: MID_CONNECTOR_def)
    ultimately show ?thesis using True by (simp add: conn)
  next
    case False
    have "remove_all LAST_CONNECTOR (sp @ MID_CONNECTOR @ tl) = sp @ MID_CONNECTOR @ tl"
      using free by (intro remove_all_absent) (simp_all add: LAST_CONNECTOR_def MID_CONNECTOR_def cc)
    moreover have "remove_all MID_CONNECTOR (sp @ MID_CONNECTOR @ tl) = sp @ tl"
      using free by (simp add: remove_all_skip remove_all_hit remove_all_absent
          MID_CONNECTOR_def)
    ultimately show ?thesis using False by (simp add: conn)
  qed
  have "SLASH \<notin> set sp"
  proof
    assume "SLASH \<in> set sp"
    then have "SLASH \<in> {SPACE}" using sp by (rule subsetD [rotated])
    then show False using cc(17) by simp
  qed
  then have "filter (\<lambda>c. c \<noteq> SLASH) sp = sp" by (intro filter_True) auto
  moreover have "filter (\<lambda>c. c \<noteq> SLASH) (name c) = name c"
    using nmc by (intro filter_True) auto
  ultimately have r3: "remove_all [SLASH] (sp @ tl) = sp @ name c"
    by (simp add: remove_all_single tl_def)
  obtain y ys where ys: "name c = y # ys" using nm(1) by (cases "name c") auto
  have "lstrip (sp @ name c) = name c"
    unfolding ys using sp nm(2) by (intro lstrip_spaces) (auto simp: cc ys)
  then have r4: "strip (sp @ name c) = name c"
    using nm by (simp add: strip_def rstrip_id)
  show ?thesis
    by (simp add: line_fields_def Let_def indent content leaf r1 r2 r3 r4)
qed

lemma tidy_md_line:
  assumes cl: "clean (name c)" and cp: "set cp \<subseteq> {SPACE, BOX_V}"
  shows "tidy (md_line (c, lvl, il, cp))"
proof -
  note cc = connector_chars
  have nm: "name c \<noteq> []" "\<not> isspace (last (name c))"
    and nmc: "\<And>a. a \<in> set (name c) \<Longrightarrow> \<not> islinebreak a"
    using cl by (auto simp: clean_def)
  have "\<not> islinebreak a" if "a \<in> set cp" for a
    using cp that by (auto simp: cc)
  then show ?thesis
    using nm nmc
    by (auto simp: tidy_def md_line_def LAST_CONNECTOR_def MID_CONNECTOR_def cc)
qed

lemma md_children_plain:
  assumes "x \<in> set (md_children pfx 0 0 (n, lvl, il, cp))"
  shows "fst x \<in> set (children n)" "fst (snd x) = lvl + 1"
    "snd (snd (snd x)) = child_prefix pfx lvl il cp"
proof -
  have "fst x \<in> set (map fst (md_children pfx 0 0 (n, lvl, il, cp)))"
    using assms by simp
  then show "fst x \<in> set (children n)"
    by (simp add: md_children_nodes within_caps_def split: if_splits)
  show "fst (snd x) = lvl + 1" by (rule md_children_level [OF assms])
  show "snd (snd (snd x)) = child_prefix pfx lvl il cp"
    using assms
    by (cases "children n = []")
       (auto simp: md_children_def md_next_stack_def md_push_def push_each_rev Let_def
          child_prefix_def split: if_splits)
qed

lemma child_prefix_ok:
  assumes "set cp \<subseteq> {SPACE, BOX_V}" "set pfx \<subseteq> {SPACE, BOX_V}"
  shows "set (child_prefix pfx lvl il cp) \<subseteq> {SPACE, BOX_V}"
  using assms by (auto simp: child_prefix_def BLANK_CONT_def BAR_CONT_def)

lemma md_children_fields:
  assumes kids: "\<And>x. x \<in> set (md_children pfx 0 0 (n, lvl, il, cp)) \<Longrightarrow>
      map (\<lambda>e. line_fields (md_line e)) (md_entries pfx 0 0 x) = preorder_fields k (fst x)"
    and dir: "\<not> is_leaf n"
  shows "map (\<lambda>e. line_fields (md_line e))
           (concat (map (md_entries pfx 0 0) (md_children pfx 0 0 (n, lvl, il, cp))))
         = concat (map (preorder_fields k) (children n))"
proof -
  let ?ch = "md_children pfx 0 0 (n, lvl, il, cp)"
  have nodes: "map fst ?ch = children n"
    using dir by (simp add: md_children_nodes within_caps_def)
  have "map (\<lambda>x. map (\<lambda>e. line_fields (md_line e)) (md_entries pfx 0 0 x)) ?ch
      = map (\<lambda>x. preorder_fields k (fst x)) ?ch"
    by (rule map_cong [OF refl]) (rule kids)
  also have "\<dots> = map (preorder_fields k) (map fst ?ch)" by (simp add: comp_def)
  finally show ?thesis by (simp add: map_concat comp_def nodes)
qed

lemma md_entries_fields:
  "clean_tree c \<Longrightarrow> node_tree c \<Longrightarrow> 0 < lvl \<Longrightarrow> set cp \<subseteq> {SPACE, BOX_V} \<Longrightarrow>
   length cp = 4 * k \<Longrightarrow>
   map (\<lambda>e. line_fields (md_line e)) (md_entries pfx 0 0 (c, lvl, il, cp)) = preorder_fields k c"
proof (induction "size c" arbitrary: c lvl il cp k rule: less_induct)
  case less
  let ?e = "(c, lvl, il, cp)"
  let ?np = "child_prefix pfx lvl il cp"
  have cl: "clean (name c)" and clk: "\<And>x. x \<in> set (children c) \<Longrightarrow> clean_tree x"
    using less.prems(1) by (simp_all add: clean_tree_sel [of c])
  have ntk: "\<And>x. x \<in> set (children c) \<Longrightarrow> node_tree x"
    using less.prems(2) by (simp add: node_tree_sel [of c])
  have np: "set ?np \<subseteq> {SPACE, BOX_V}" "length ?np = 4 * (k + 1)"
    using less.prems(3,4,5) by (auto simp: child_prefix_def BLANK_CONT_def BAR_CONT_def)
  have first: "line_fields (md_line ?e) = (k, name c, is_leaf c)"
    by (rule line_fields_md_line [OF cl less.prems(3,4,5)])
  have kids: "map (\<lambda>e. line_fields (md_line e)) (md_entries pfx 0 0 x) = preorder_fields (k + 1) (fst x)"
    if x: "x \<in> set (md_children pfx 0 0 ?e)" for x
  proof -
    note facts = md_children_plain [OF x]
    have shape: "x = (fst x, lvl + 1, fst (snd (snd x)), ?np)"
      using facts(2,3) by (cases x) auto
    have "map (\<lambda>e. line_fields (md_line e))
            (md_entries pfx 0 0 (fst x, lvl + 1, fst (snd (snd x)), ?np)) = preorder_fields (k + 1) (fst x)"
      using less.prems(3) np
      by (intro less.hyps child_size [OF facts(1)] clk [OF facts(1)] ntk [OF facts(1)]) simp_all
    then show ?thesis using shape by simp
  qed
  show ?case
  proof (cases "is_leaf c")
    case True
    have "md_children pfx 0 0 ?e = []"
      using True by (simp add: md_children_def md_next_stack_def)
    moreover have "children c = []"
      using True less.prems(2) by (simp add: node_tree_sel [of c])
    ultimately show ?thesis
      by (simp add: md_entries.simps [of pfx 0 0 ?e] preorder_fields.simps [of k c] first)
  next
    case False
    show ?thesis
      using md_children_fields [of pfx c lvl il cp "k + 1", OF kids False]
      by (simp add: md_entries.simps [of pfx 0 0 ?e] preorder_fields.simps [of k c] first)
  qed
qed

lemma md_entries_tidy:
  "clean_tree c \<Longrightarrow> set cp \<subseteq> {SPACE, BOX_V} \<Longrightarrow> set pfx \<subseteq> {SPACE, BOX_V} \<Longrightarrow>
   e \<in> set (md_entries pfx 0 0 (c, lvl, il, cp)) \<Longrightarrow> tidy (md_line e)"
proof (induction "size c" arbitrary: c lvl il cp rule: less_induct)
  case less
  let ?e = "(c, lvl, il, cp)"
  have cl: "clean (name c)" and clk: "\<And>x. x \<in> set (children c) \<Longrightarrow> clean_tree x"
    using less.prems(1) by (simp_all add: clean_tree_sel [of c])
  from less.prems(4) consider "e = ?e"
    | x where "x \<in> set (md_children pfx 0 0 ?e)" "e \<in> set (md_entries pfx 0 0 x)"
    by (subst (asm) md_entries.simps) auto
  then show ?case
  proof cases
    case 1
    then show ?thesis using tidy_md_line [OF cl less.prems(2)] by simp
  next
    case 2
    note facts = md_children_plain [OF 2(1)]
    have shape: "x = (fst x, lvl + 1, fst (snd (snd x)), child_prefix pfx lvl il cp)"
      using facts(2,3) by (cases x) auto
    have "e \<in> set (md_entries pfx 0 0
        (fst x, lvl + 1, fst (snd (snd x)), child_prefix pfx lvl il cp))"
      using 2(2) shape by simp
    then show ?thesis
      by (rule less.hyps [OF child_size [OF facts(1)] clk [OF facts(1)]
            child_prefix_ok [OF less.prems(2,3)] less.prems(3)])
  qed
qed

lemma to_md_plain:
  "to_md t 0 False [] (0, 0)
     = Inr (join [NL] (map md_line (md_entries [] 0 0 (t, 0, False, []))))"
  by (simp add: to_md_def c_int_def to_md_loop_lines)

lemma from_md_joined:
  assumes nt: "node_tree t" and cl: "clean_tree t" and dir: "\<not> is_leaf t"
  shows "from_md (join [NL] (map md_line (md_entries [] 0 0 (t, 0, False, [])))) = Inr (Some t)"
proof -
  let ?e0 = "(t, 0::int, False, [])"
  let ?rest = "concat (map (md_entries [] 0 0) (md_children [] 0 0 ?e0))"
  let ?first = "name t @ [SLASH]"
  let ?ls = "?first # map md_line ?rest"
  let ?init = "TreeNode_init (name t) False"
  note cc = connector_chars
  have nm: "name t \<noteq> []" "\<not> isspace (hd (name t))" "\<And>a. a \<in> set (name t) \<Longrightarrow> a \<noteq> SLASH"
    using cl by (auto simp: clean_tree_sel [of t] clean_def)
  have ls: "map md_line (md_entries [] 0 0 ?e0) = ?ls"
    using dir by (simp add: md_entries.simps [of "[]" 0 0 ?e0] md_line_def)
  have tidy: "tidy l" if "l \<in> set ?ls" for l
  proof -
    from that obtain e where "e \<in> set (md_entries [] 0 0 ?e0)" "l = md_line e"
      unfolding ls [symmetric] by auto
    then show ?thesis using md_entries_tidy [OF cl, of "[]" "[]" e 0 False] by simp
  qed
  have lines: "splitlines (join [NL] ?ls) = ?ls"
    by (rule splitlines_join) (use tidy in \<open>auto simp: tidy_def\<close>)
  have "tidy (last ?ls)" by (rule tidy) (rule last_in_set, simp)
  then have "last ?ls \<noteq> []" "\<not> isspace (last (last ?ls))" by (simp_all add: tidy_def)
  then have "\<not> isspace (last (join [NL] ?ls))"
    using last_join [of ?ls "[NL]"] by simp
  moreover have "\<not> isspace (hd (join [NL] ?ls))"
    using hd_join [of ?ls "[NL]"] nm by simp
  moreover have "join [NL] ?ls \<noteq> []"
    by (rule join_nonempty) simp_all
  ultimately have strip: "strip (join [NL] ?ls) = join [NL] ?ls"
    by (intro strip_id)
  have "strip ?first = ?first"
    using nm by (intro strip_id) (simp_all add: cc)
  moreover have "filter (\<lambda>c. c \<noteq> SLASH) (name t) = name t"
    using nm(3) by (intro filter_True) auto
  ultimately have root: "remove_all [SLASH] (strip ?first) = name t"
    by (simp add: remove_all_single)
  have kids: "map (\<lambda>e. line_fields (md_line e)) (md_entries [] 0 0 x) = preorder_fields 0 (fst x)"
    if x: "x \<in> set (md_children [] 0 0 ?e0)" for x
  proof -
    note facts = md_children_plain [OF x]
    have shape: "x = (fst x, 1, fst (snd (snd x)), [])"
      using facts(2,3) by (cases x) (auto simp: child_prefix_def)
    have "clean_tree (fst x)" "node_tree (fst x)"
      using facts(1) cl nt by (simp_all add: clean_tree_sel [of t] node_tree_sel [of t])
    then have "map (\<lambda>e. line_fields (md_line e))
        (md_entries [] 0 0 (fst x, 1, fst (snd (snd x)), [])) = preorder_fields 0 (fst x)"
      by (intro md_entries_fields) simp_all
    then show ?thesis using shape by simp
  qed
  have fields: "map (line_fields \<circ> md_line) ?rest = concat (map (preorder_fields 0) (children t))"
    using md_children_fields [of "[]" t 0 False "[]" 0, OF kids dir] by (simp add: comp_def)
  have ntk: "\<forall>c \<in> set (children t). node_tree c"
    using nt by (simp add: node_tree_sel [of t])
  obtain extra' where "place_all (?init, [] @ chain [])
        (concat (map (preorder_fields (length ([] :: ref))) (children t)))
      = Inr (map_at (\<lambda>n. foldl with_child n (children t)) [] ?init, extra' @ chain [])"
    using place_all_forest [of ?init "[]" ?init "children t" "[]"] ntk
    by (auto simp: TreeNode_init_def)
  then have "from_md_lines (?init, [[]]) (map md_line ?rest) = Inr (t, extra' @ chain [])"
    using node_tree_dir [OF nt dir] by (simp add: from_md_lines_place fields chain_def)
  then show ?thesis
    unfolding ls by (simp add: from_md_def strip lines root)
qed

text \<open>
  For every Node Tree \<open>t\<close> whose root is a directory and whose names are not empty,
  have no white space at either end and contain no \<open>/\<close>, no line break and none of the
  three connector characters, the diagram encoder with no depth cap returns a string,
  and the diagram decoder turns that string back into \<open>t\<close>: the same names, tags and
  children, in the same order, at every node.
\<close>

theorem diagram_round_trip:
  "node_tree t \<Longrightarrow> clean_tree t \<Longrightarrow> \<not> is_leaf t \<Longrightarrow>
   \<exists>s. to_md t 0 False [] (0, 0) = Inr s \<and> from_md s = Inr (Some t)"
proof -
  assume nt: "node_tree t" and cl: "clean_tree t" and dir: "\<not> is_leaf t"
  let ?s = "join [NL] (map md_line (md_entries [] 0 0 (t, 0, False, [])))"
  have "to_md t 0 False [] (0, 0) = Inr ?s"
    by (rule to_md_plain)
  moreover have "from_md ?s = Inr (Some t)"
    by (rule from_md_joined [OF nt cl dir])
  ultimately show ?thesis by blast
qed

theorem diagram_round_trip_witness:
  "node_tree example_tree \<and> clean_tree example_tree \<and> \<not> is_leaf example_tree
   \<and> to_md example_tree 0 False [] (0, 0) = Inr example_diagram
   \<and> from_md example_diagram = Inr (Some example_tree)"
proof -
  have nt: "node_tree example_tree" by (simp add: sample u_def)
  have cl: "clean_tree example_tree"
    by (simp add: sample u_def clean_def chars isspace_def islinebreak_def)
  have dir: "\<not> is_leaf example_tree" by (simp add: sample)
  have m: "md_entries [] 0 0 (example_tree, 0, False, [])
      = [(example_tree, 0, False, []), (dir ''a'' [leaf ''b.txt''], 1, False, []),
         (leaf ''b.txt'', 2, True, BAR_CONT), (leaf ''c.txt'', 1, True, [])]"
    by (simp add: md_entries.simps md_children_def md_next_stack_def md_push_def
        push_each_def sample)
  have d: "join [NL] (map md_line
        [(example_tree, 0, False, []), (dir ''a'' [leaf ''b.txt''], 1, False, []),
         (leaf ''b.txt'', 2, True, BAR_CONT), (leaf ''c.txt'', 1, True, [])])
      = example_diagram"
    by (simp add: md_line_def sample example_diagram_def chars LAST_CONNECTOR_def MID_CONNECTOR_def BAR_CONT_def)
  have enc: "to_md example_tree 0 False [] (0, 0) = Inr example_diagram"
    unfolding to_md_plain m d by (rule refl)
  from diagram_round_trip [OF nt cl dir] enc nt cl dir show ?thesis by auto
qed

text \<open>
  A tree that is a single leaf is written as its bare name by both encoders, and both
  decoders always make the first line a directory: the round trip returns a
  directory, not the leaf.
\<close>

lemma leaf_root_round_trip:
  "node_tree (leaf ''f'')
   \<and> to_repr (leaf ''f'') 0 (0, 0) = Inr (u ''f'')
   \<and> from_repr (u ''f'') = Inr (Some (dir ''f'' []))
   \<and> to_md (leaf ''f'') 0 False [] (0, 0) = Inr (u ''f'')
   \<and> from_md (u ''f'') = Inr (Some (dir ''f'' []))
   \<and> dir ''f'' [] \<noteq> leaf ''f''"
  by (simp add: to_repr_def from_repr_def to_md_def c_int_def md_next_stack_def from_md_def
      sample chars str_eval tree_eval)

lemma full_listing_lines:
  "splitlines (strip full_listing)
     = [u ''root/'', u ''    |-- a/'', u ''        |-- b.txt'', u ''    |-- c.txt'']"
  by (simp add: full_listing_def chars str_eval)

text \<open>
  C1. The listing round trip fails on \<open>example_tree\<close>, a Node Tree with a directory
  root and plain names, on which the diagram round trip succeeds. The listing encoder
  indents a node of depth \<open>d\<close> by \<open>d\<close> units of four spaces, and the listing decoder
  pops its stack down to \<open>level + 1\<close> entries, \<open>level\<close> being the number of units (the
  diagram decoder pops to the same length, but its lines carry one unit less). A
  directory therefore stays on the stack when a later sibling arrives, and the sibling
  is attached to it: \<open>c.txt\<close> comes back as a child of \<open>a\<close>.
\<close>

theorem listing_round_trip_later_sibling:
  "node_tree example_tree \<and> clean_tree example_tree \<and> \<not> is_leaf example_tree
   \<and> to_repr example_tree 0 (0, 0) = Inr full_listing
   \<and> from_repr full_listing
       = Inr (Some (dir ''root'' [dir ''a'' [leaf ''b.txt'', leaf ''c.txt'']]))
   \<and> dir ''root'' [dir ''a'' [leaf ''b.txt'', leaf ''c.txt'']] \<noteq> example_tree"
proof -
  have nt: "node_tree example_tree" by (simp add: sample u_def)
  have cl: "clean_tree example_tree"
    by (simp add: sample u_def clean_def chars isspace_def islinebreak_def)
  have enc: "to_repr example_tree 0 (0, 0) = Inr full_listing"
    by (simp add: to_repr_def c_int_def sample chars full_listing_def indent_of_def push_each_def
        replicate_numeral)
  have dec: "from_repr full_listing
     = Inr (Some (dir ''root'' [dir ''a'' [leaf ''b.txt'', leaf ''c.txt'']]))"
    unfolding from_repr_def full_listing_lines
    by (simp add: from_repr_line_def sample chars str_eval tree_eval)
  have ne: "dir ''root'' [dir ''a'' [leaf ''b.txt'', leaf ''c.txt'']] \<noteq> example_tree"
    by (simp add: sample)
  show ?thesis using nt cl enc dec ne by (simp add: sample)
qed

end
